theory Spec2Isabelle
  imports
    Main
    "HOL-Library.Sublist"
    "HOL-Library.Char_ord"
    "HOL-Library.List_Lexorder"
    "HOL-Library.Multiset"
begin

section \<open>The migration runner of db/migrate.py\<close>

text \<open>
  A shallow embedding of \<^verbatim>\<open>db/migrate.py\<close>, the PostgreSQL migration runner. Strings are
  \<^typ>\<open>string\<close>; the model reads them as ASCII text, one \<^typ>\<open>char\<close> per character, and
  the character classes below are those of Python's \<^verbatim>\<open>str\<close> methods and of \<^verbatim>\<open>re\<close> on
  ASCII characters. Python compares \<^verbatim>\<open>str\<close> values by code point, which on ASCII text is
  the lexicographic order of \<^typ>\<open>char list\<close> over the numeric order of \<^typ>\<open>char\<close>.
\<close>

subsection \<open>Python string operations\<close>

text \<open>
  \<^verbatim>\<open>str.strip()\<close> and the pattern \<^verbatim>\<open>\s\<close> take as whitespace the characters 0x09 to 0x0D,
  0x1C to 0x1F and the space; \<^verbatim>\<open>\w\<close> takes letters, digits and the underscore.
\<close>

definition is_space :: "char \<Rightarrow> bool" where
  "is_space c =
     (let n = (of_char c :: nat) in (9 \<le> n \<and> n \<le> 13) \<or> (28 \<le> n \<and> n \<le> 32))"

definition is_word :: "char \<Rightarrow> bool" where
  "is_word c =
     (let n = (of_char c :: nat) in
        (48 \<le> n \<and> n \<le> 57) \<or> (65 \<le> n \<and> n \<le> 90) \<or> n = 95 \<or> (97 \<le> n \<and> n \<le> 122))"

text \<open>\<^verbatim>\<open>str.upper()\<close>: the letters a to z move to A to Z, every other character stays.\<close>

definition upper_char :: "char \<Rightarrow> char" where
  "upper_char c =
     (let n = (of_char c :: nat) in if 97 \<le> n \<and> n \<le> 122 then char_of (n - 32) else c)"

definition upper :: "string \<Rightarrow> string" where
  "upper s = map upper_char s"

text \<open>\<^verbatim>\<open>str.strip()\<close>: leading and trailing whitespace removed.\<close>

definition strip :: "string \<Rightarrow> string" where
  "strip s = rev (dropWhile is_space (rev (dropWhile is_space s)))"

text \<open>
  \<^verbatim>\<open>s.split(sep)\<close> for a separator of one character: the pieces between the separators,
  empty pieces kept, so the result is never empty (\<^verbatim>\<open>''.split(';') == ['']\<close>).
\<close>

fun split :: "char \<Rightarrow> string \<Rightarrow> string list" where
  "split sep [] = [[]]"
| "split sep (c # cs) =
     (if c = sep then [] # split sep cs
      else (case split sep cs of
              [] \<Rightarrow> [[c]]
            | piece # pieces \<Rightarrow> (c # piece) # pieces))"

subsection \<open>Migration files and reference extraction\<close>

text \<open>
  A migration file is a \<^verbatim>\<open>Path\<close>: \<^verbatim>\<open>file.name\<close> is its filename and \<^verbatim>\<open>file.read_text()\<close> its
  content. The runner lists the files of one directory, so filenames identify files.
\<close>

record migration_file =
  name :: string
  content :: string

datatype error =
    StopIteration
  | DatabaseError string
  | SystemExit int

text \<open>
  \<^verbatim>\<open>re.search(r'REFERENCES\s+(\w+)', line)\<close>: the leftmost position where the literal is
  followed by at least one whitespace character and then at least one word character; the
  group is the longest run of word characters there. Whitespace and word characters are
  disjoint, so both runs are maximal in every match.
\<close>

definition match_references :: "string \<Rightarrow> string option" where
  "match_references s =
     (if prefix ''REFERENCES'' s then
        (let rest = drop (length ''REFERENCES'') s;
             spaces = takeWhile is_space rest;
             table = takeWhile is_word (dropWhile is_space rest)
         in if spaces \<noteq> [] \<and> table \<noteq> [] then Some table else None)
      else None)"

fun search_references :: "string \<Rightarrow> string option" where
  "search_references [] = match_references []"
| "search_references (c # cs) =
     (case match_references (c # cs) of
        Some table \<Rightarrow> Some table
      | None \<Rightarrow> search_references cs)"

fun references_of_lines :: "string list \<Rightarrow> string set \<Rightarrow> string set" where
  "references_of_lines [] references = references"
| "references_of_lines (line # lines) references =
     (if sublist ''REFERENCES'' line then
        (case search_references line of
           Some table \<Rightarrow> references_of_lines lines (insert table references)
         | None \<Rightarrow> references_of_lines lines references)
      else references_of_lines lines references)"

definition get_table_references :: "string \<Rightarrow> string set" where
  "get_table_references sql_content =
     references_of_lines (split (CHR 0x0A) sql_content) {}"

subsection \<open>Dependency order\<close>

text \<open>
  The dictionary \<^verbatim>\<open>dependencies\<close> is filled in the order of the sorted files; a later file
  of the same name overwrites the entry.
\<close>

fun build_dependencies ::
  "migration_file list \<Rightarrow> (string \<rightharpoonup> string set) \<Rightarrow> (string \<rightharpoonup> string set)" where
  "build_dependencies [] dependencies = dependencies"
| "build_dependencies (file # files) dependencies =
     build_dependencies files
       (dependencies(name file \<mapsto> get_table_references (content file)))"

text \<open>
  The closure \<^verbatim>\<open>visit\<close> mutates the set \<^verbatim>\<open>visited\<close> and the list \<^verbatim>\<open>result\<close>; the model
  passes both as a state. Python does not fix the order in which a \<^verbatim>\<open>for\<close> loop yields the
  elements of a set of strings (string hashes are randomised per process), so the order
  is a parameter \<open>order\<close> of the model: \<open>order S\<close> is the sequence in which the loop over
  the set \<open>S\<close> yields its elements. \<^verbatim>\<open>next(f for f in ... if f.name == filename)\<close> has no
  default and raises \<^verbatim>\<open>StopIteration\<close> when no file has that name.
\<close>

record visit_state =
  visited :: "string set"
  result :: "migration_file list"

function
  visit :: "(string set \<Rightarrow> string list) \<Rightarrow> migration_file list \<Rightarrow>
            (string \<rightharpoonup> string set) \<Rightarrow> string \<Rightarrow> visit_state \<Rightarrow> error + visit_state"
  and visit_deps :: "(string set \<Rightarrow> string list) \<Rightarrow> migration_file list \<Rightarrow>
            (string \<rightharpoonup> string set) \<Rightarrow> string list \<Rightarrow> visit_state \<Rightarrow> error + visit_state"
where
  "visit order migration_files dependencies filename st =
     (if filename \<in> visited st then Inr st
      else
        (case visit_deps order migration_files dependencies
                (case dependencies filename of None \<Rightarrow> [] | Some tables \<Rightarrow> order tables)
                (st\<lparr>visited := insert filename (visited st)\<rparr>) of
           Inl e \<Rightarrow> Inl e
         | Inr st' \<Rightarrow>
             (case find (\<lambda>f. name f = filename) migration_files of
                None \<Rightarrow> Inl StopIteration
              | Some f \<Rightarrow> Inr (st'\<lparr>result := result st' @ [f]\<rparr>))))"
| "visit_deps order migration_files dependencies [] st = Inr st"
| "visit_deps order migration_files dependencies (dep_table # tables) st =
     (case find (\<lambda>f. prefix dep_table (name f)) migration_files of
        None \<Rightarrow> visit_deps order migration_files dependencies tables st
      | Some dep_file \<Rightarrow>
          (case visit order migration_files dependencies (name dep_file) st of
             Inl e \<Rightarrow> Inl e
           | Inr st' \<Rightarrow> visit_deps order migration_files dependencies tables st'))"
  by pat_completeness auto

text \<open>
  A call that returns never removes a name from \<^verbatim>\<open>visited\<close>; the termination proof of the
  loop over the dependencies rests on it.
\<close>

lemma visit_dom_visited_mono:
  "visit_visit_deps_dom (Inl (order, fs, deps, filename, st)) \<Longrightarrow>
     visit order fs deps filename st = Inr st' \<Longrightarrow> visited st \<subseteq> visited st'"
  "visit_visit_deps_dom (Inr (order, fs, deps, tables, st)) \<Longrightarrow>
     visit_deps order fs deps tables st = Inr st' \<Longrightarrow> visited st \<subseteq> visited st'"
proof (induction order fs deps filename st and order fs deps tables st
    arbitrary: st' and st' rule: visit_visit_deps.pinduct)
  case (1 order fs deps filename st)
  show ?case
  proof (cases "filename \<in> visited st")
    case True
    with "1.prems" "1.hyps" show ?thesis
      by (simp add: visit.psimps)
  next
    case False
    with "1.prems" "1.hyps" obtain st1 where
      st1: "visit_deps order fs deps
              (case deps filename of None \<Rightarrow> [] | Some tables \<Rightarrow> order tables)
              (st\<lparr>visited := insert filename (visited st)\<rparr>) = Inr st1"
      and vis: "visited st' = visited st1"
      by (auto simp: visit.psimps split: sum.splits option.splits)
    from "1.IH" [OF False st1] vis show ?thesis
      by auto
  qed
next
  case (2 order fs deps st)
  then show ?case
    by (simp add: visit_deps.psimps)
next
  case (3 order fs deps dep_table tables st)
  show ?case
  proof (cases "find (\<lambda>f. prefix dep_table (name f)) fs")
    case None
    with "3.prems" "3.hyps" have "visit_deps order fs deps tables st = Inr st'"
      by (simp add: visit_deps.psimps)
    from "3.IH"(1) [OF None this] show ?thesis .
  next
    case (Some dep_file)
    with "3.prems" "3.hyps" obtain st1 where
      st1: "visit order fs deps (name dep_file) st = Inr st1"
      and rest: "visit_deps order fs deps tables st1 = Inr st'"
      by (auto simp: visit_deps.psimps split: sum.splits)
    from "3.IH"(2) [OF Some st1] "3.IH"(3) [OF Some st1 rest] show ?thesis
      by blast
  qed
qed

lemma card_unvisited_less:
  "f \<in> set fs \<Longrightarrow> name f \<notin> seen \<Longrightarrow>
     card (name ` set fs - seen) - Suc 0 < card (name ` set fs - seen)"
proof -
  assume "f \<in> set fs" "name f \<notin> seen"
  then have "name f \<in> name ` set fs - seen"
    by simp
  then have "0 < card (name ` set fs - seen)"
    by (auto simp: card_gt_0_iff)
  then show ?thesis
    by simp
qed

lemma card_unvisited_mono:
  "finite names \<Longrightarrow> seen \<subseteq> seen' \<Longrightarrow> card (names - seen') \<le> card (names - seen)"
  by (intro card_mono) auto

lemma find_Some_member: "find P xs = Some x \<Longrightarrow> x \<in> set xs"
  by (auto simp: find_Some_iff)

text \<open>
  The measure: the number of filenames of the list not yet visited (one more for a call of
  \<^verbatim>\<open>visit\<close> on a name that is not a filename of the list), then the kind of call, then the
  number of tables the loop still has to look at.
\<close>

termination visit
proof (relation
    "inv_image (less_than <*lex*> less_than <*lex*> less_than)
       (\<lambda>x. case x of
          Inl (order, fs, deps, filename, st) \<Rightarrow>
            (card (name ` set fs - visited st) + (if filename \<in> name ` set fs then 0 else 1),
             0::nat, 0::nat)
        | Inr (order, fs, deps, tables, st) \<Rightarrow>
            (card (name ` set fs - visited st), 1, length tables))",
    goal_cases)
  case 1
  show ?case
    by (intro wf_inv_image wf_lex_prod wf_less_than)
next
  case 2
  then show ?case
    by (auto simp: card_unvisited_less)
next
  case 3
  then show ?case
    by simp
next
  case 4
  then show ?case
    by (auto dest: find_Some_member)
next
  case 5
  from visit_dom_visited_mono(1) [OF 5(3) 5(2)] show ?case
    by (auto dest: card_unvisited_mono [of "name ` set fs" for fs, rotated] simp: le_less)
qed

text \<open>The loop \<^verbatim>\<open>for file in migration_files: visit(file.name)\<close>.\<close>

fun visit_all :: "(string set \<Rightarrow> string list) \<Rightarrow> migration_file list \<Rightarrow>
    (string \<rightharpoonup> string set) \<Rightarrow> migration_file list \<Rightarrow> visit_state \<Rightarrow> error + visit_state" where
  "visit_all order migration_files dependencies [] st = Inr st"
| "visit_all order migration_files dependencies (file # files) st =
     (case visit order migration_files dependencies (name file) st of
        Inl e \<Rightarrow> Inl e
      | Inr st' \<Rightarrow> visit_all order migration_files dependencies files st')"

definition topological_sort ::
  "(string set \<Rightarrow> string list) \<Rightarrow> migration_file list \<Rightarrow> error + migration_file list" where
  "topological_sort order migration_files =
     (let sorted_files = sort_key name migration_files;
          dependencies = build_dependencies sorted_files Map.empty
      in case visit_all order sorted_files dependencies sorted_files
                \<lparr>visited = {}, result = []\<rparr> of
           Inl e \<Rightarrow> Inl e
         | Inr st \<Rightarrow> Inr (result st))"

subsection \<open>The cursor, the connection and the log\<close>

text \<open>
  The database server is outside the program. The model records every call the runner
  makes on the cursor and the connection, in order, and takes the server's answers from
  a parameter: \<open>db cs\<close> is \<open>None\<close> when the last call of the history \<open>cs\<close> returns,
  and \<open>Some msg\<close> when it raises \<^verbatim>\<open>psycopg2.Error\<close> with the message \<open>msg\<close>. Only
  \<^verbatim>\<open>cursor.execute\<close> and \<^verbatim>\<open>connection.commit\<close> ask the server; setting the isolation level
  and closing are taken to return. Every theorem holds for every such \<open>db\<close>.
\<close>

datatype call =
    Execute string "string list"
  | Commit
  | SetIsolationLevel "int option"
  | CloseCursor
  | CloseConnection

type_synonym database = "call list \<Rightarrow> string option"

text \<open>
  One constructor for each message the runner logs at level INFO or above, with the values
  the message is formatted from (\<^verbatim>\<open>logger.debug\<close> prints nothing at the configured level).
\<close>

datatype log_event =
    Starting
  | DatabaseUrlNotSet
  | ConnectionError string
  | Skipping string
  | Applying string
  | AppliedSuccessfully string
  | FailedToApply string string
  | RolledBack string
  | RollbackFailed string
  | StoppingMigrations
  | DirectoryNotFound
  | NoMigrationsFound
  | Processing nat
  | Completed

record world =
  isolation_level :: "int option"
  calls :: "call list"
  logged :: "log_event list"

definition logger :: "log_event \<Rightarrow> world \<Rightarrow> world" where
  "logger ev w = w\<lparr>logged := logged w @ [ev]\<rparr>"

text \<open>
  A procedure returns the exception it raised (\<open>None\<close> when it returned) and the world it
  left behind.
\<close>

definition execute :: "database \<Rightarrow> string \<Rightarrow> string list \<Rightarrow> world \<Rightarrow> error option \<times> world" where
  "execute db sql params w =
     (let w' = w\<lparr>calls := calls w @ [Execute sql params]\<rparr>
      in (map_option DatabaseError (db (calls w')), w'))"

definition commit :: "database \<Rightarrow> world \<Rightarrow> error option \<times> world" where
  "commit db w =
     (let w' = w\<lparr>calls := calls w @ [Commit]\<rparr>
      in (map_option DatabaseError (db (calls w')), w'))"

definition set_isolation_level :: "int option \<Rightarrow> world \<Rightarrow> world" where
  "set_isolation_level level w =
     w\<lparr>isolation_level := level, calls := calls w @ [SetIsolationLevel level]\<rparr>"

definition close_cursor :: "world \<Rightarrow> world" where
  "close_cursor w = w\<lparr>calls := calls w @ [CloseCursor]\<rparr>"

definition close_connection :: "world \<Rightarrow> world" where
  "close_connection w = w\<lparr>calls := calls w @ [CloseConnection]\<rparr>"

subsection \<open>Applying one migration\<close>

definition AUTOCOMMIT_STATEMENTS :: "string set" where
  "AUTOCOMMIT_STATEMENTS =
     {''CREATE DATABASE'', ''DROP DATABASE'', ''CREATE TABLESPACE'', ''DROP TABLESPACE'',
      ''ALTER SYSTEM''}"

definition has_transaction_block :: "string \<Rightarrow> bool" where
  "has_transaction_block sql_content =
     (let sql_upper = strip (upper sql_content)
      in prefix ''BEGIN'' sql_upper \<or> sublist ''BEGIN;'' sql_upper \<or>
         prefix ''START TRANSACTION'' sql_upper)"

definition requires_autocommit :: "string \<Rightarrow> bool" where
  "requires_autocommit sql_content =
     (let sql_upper = upper sql_content
      in \<exists>stmt \<in> AUTOCOMMIT_STATEMENTS. sublist stmt sql_upper)"

text \<open>The loop \<^verbatim>\<open>for statement in sql.split(';')\<close> of the autocommit branch.\<close>

fun execute_statements :: "database \<Rightarrow> string list \<Rightarrow> world \<Rightarrow> error option \<times> world" where
  "execute_statements db [] w = (None, w)"
| "execute_statements db (statement # statements) w =
     (let stripped = strip statement in
      if stripped \<noteq> [] then
        (case execute db stripped [] w of
           (Some e, w') \<Rightarrow> (Some e, w')
         | (None, w') \<Rightarrow> execute_statements db statements w')
      else execute_statements db statements w)"

text \<open>
  In the autocommit branch the \<^verbatim>\<open>finally\<close> clause runs whether the loop returned or
  raised, and the exception of the loop, if any, is raised again after it.
\<close>

definition apply_migration :: "database \<Rightarrow> migration_file \<Rightarrow> world \<Rightarrow> error option \<times> world" where
  "apply_migration db migration_file w =
     (let sql = content migration_file in
      if requires_autocommit sql then
        (let old_isolation = isolation_level w;
             w1 = set_isolation_level (Some 0) w;
             (r, w2) = execute_statements db (split CHR '';'' sql) w1
         in (r, set_isolation_level old_isolation w2))
      else if has_transaction_block sql then execute db sql [] w
      else
        (case execute db ''BEGIN;'' [] w of
           (Some e, w1) \<Rightarrow> (Some e, w1)
         | (None, w1) \<Rightarrow>
             (case execute db sql [] w1 of
                (Some e, w2) \<Rightarrow> (Some e, w2)
              | (None, w2) \<Rightarrow> execute db ''COMMIT;'' [] w2)))"

definition insert_sql :: string where
  "insert_sql = ''INSERT INTO applied_migrations (filename) VALUES (%s);''"

definition record_migration :: "database \<Rightarrow> string \<Rightarrow> world \<Rightarrow> error option \<times> world" where
  "record_migration db filename w =
     (case execute db ''BEGIN;'' [] w of
        (Some e, w1) \<Rightarrow> (Some e, w1)
      | (None, w1) \<Rightarrow>
          (case execute db insert_sql [filename] w1 of
             (Some e, w2) \<Rightarrow> (Some e, w2)
           | (None, w2) \<Rightarrow> execute db ''COMMIT;'' [] w2))"

subsection \<open>Processing the files\<close>

text \<open>
  The body of the \<^verbatim>\<open>try\<close> block of \<^verbatim>\<open>process_migration_files\<close>: apply the file, record it,
  log the success.
\<close>

definition apply_and_record :: "database \<Rightarrow> migration_file \<Rightarrow> world \<Rightarrow> error option \<times> world" where
  "apply_and_record db migration_file w =
     (case apply_migration db migration_file w of
        (Some e, w1) \<Rightarrow> (Some e, w1)
      | (None, w1) \<Rightarrow>
          (case record_migration db (name migration_file) w1 of
             (Some e, w2) \<Rightarrow> (Some e, w2)
           | (None, w2) \<Rightarrow> (None, logger (AppliedSuccessfully (name migration_file)) w2)))"

text \<open>
  Its \<^verbatim>\<open>except Exception\<close> block. \<^verbatim>\<open>SystemExit\<close> is not an \<^verbatim>\<open>Exception\<close> and passes through;
  every other error is logged, a rollback is tried (its own failure is caught and logged),
  and \<^verbatim>\<open>sys.exit(1)\<close> raises \<^verbatim>\<open>SystemExit(1)\<close>. The rollback is an \<^verbatim>\<open>execute\<close>, which raises
  nothing but a database error; the last case of the inner \<^theory_text>\<open>case\<close> is there for
  completeness only.
\<close>

definition rollback_and_exit :: "database \<Rightarrow> string \<Rightarrow> string \<Rightarrow> world \<Rightarrow> error option \<times> world" where
  "rollback_and_exit db filename msg w =
     (let w1 = logger (FailedToApply filename msg) w;
          w3 = (case execute db ''ROLLBACK;'' [] w1 of
                  (None, w2) \<Rightarrow> logger (RolledBack filename) w2
                | (Some (DatabaseError rollback_error), w2) \<Rightarrow>
                    logger (RollbackFailed rollback_error) w2
                | (Some _, w2) \<Rightarrow> w2)
      in (Some (SystemExit 1), logger StoppingMigrations w3))"

definition except_block :: "database \<Rightarrow> string \<Rightarrow> error \<Rightarrow> world \<Rightarrow> error option \<times> world" where
  "except_block db filename e w =
     (case e of
        SystemExit n \<Rightarrow> (Some (SystemExit n), w)
      | DatabaseError msg \<Rightarrow> rollback_and_exit db filename msg w
      | StopIteration \<Rightarrow> rollback_and_exit db filename [] w)"

fun process_migration_files ::
  "database \<Rightarrow> migration_file list \<Rightarrow> string set \<Rightarrow> world \<Rightarrow> error option \<times> world" where
  "process_migration_files db [] applied_migrations w = (None, w)"
| "process_migration_files db (migration_file # migration_files) applied_migrations w =
     (let filename = name migration_file in
      if filename \<in> applied_migrations then
        process_migration_files db migration_files applied_migrations
          (logger (Skipping filename) w)
      else
        (case apply_and_record db migration_file (logger (Applying filename) w) of
           (None, w1) \<Rightarrow> process_migration_files db migration_files applied_migrations w1
         | (Some e, w1) \<Rightarrow> except_block db filename e w1))"

subsection \<open>The run\<close>

text \<open>What the process finds around it: the environment variable, the server and the directory.\<close>

record environment =
  DATABASE_URL :: "string option"
  connect :: "string \<Rightarrow> string option"
  initial_isolation_level :: "int option"
  server :: database
  fetchall :: "string list"
  migrations_dir_exists :: bool
  glob_sql :: "migration_file list"
  set_order :: "string set \<Rightarrow> string list"

definition create_table_sql :: string where
  "create_table_sql = concat
     [[CHR 0x0A],
      ''        CREATE TABLE IF NOT EXISTS applied_migrations ('', [CHR 0x0A],
      ''            filename VARCHAR PRIMARY KEY,'', [CHR 0x0A],
      ''            applied_at TIMESTAMP NOT NULL DEFAULT NOW()'', [CHR 0x0A],
      ''        );'', [CHR 0x0A],
      ''    '']"

definition select_sql :: string where
  "select_sql = ''SELECT filename FROM applied_migrations;''"

definition create_applied_migrations_table :: "database \<Rightarrow> world \<Rightarrow> error option \<times> world" where
  "create_applied_migrations_table db w =
     (case execute db create_table_sql [] w of
        (Some e, w1) \<Rightarrow> (Some e, w1)
      | (None, w1) \<Rightarrow> commit db w1)"

definition get_applied_migrations ::
  "database \<Rightarrow> string list \<Rightarrow> world \<Rightarrow> (error + string set) \<times> world" where
  "get_applied_migrations db rows w =
     (case execute db select_sql [] w of
        (Some e, w1) \<Rightarrow> (Inl e, w1)
      | (None, w1) \<Rightarrow> (Inr (set rows), w1))"

definition run_migrations :: "environment \<Rightarrow> string set \<Rightarrow> world \<Rightarrow> error option \<times> world" where
  "run_migrations env applied_migrations w =
     (if \<not> migrations_dir_exists env then (None, logger DirectoryNotFound w)
      else
        (let migration_files = glob_sql env in
         if migration_files = [] then (None, logger NoMigrationsFound w)
         else
           (let w1 = logger (Processing (length migration_files)) w in
            case topological_sort (set_order env) migration_files of
              Inl e \<Rightarrow> (Some e, w1)
            | Inr sorted_files \<Rightarrow>
                process_migration_files (server env) sorted_files applied_migrations w1)))"

text \<open>The \<^verbatim>\<open>try\<close> block of \<^verbatim>\<open>main\<close>, and \<^verbatim>\<open>main\<close>'s \<^verbatim>\<open>with\<close> body with its \<^verbatim>\<open>finally\<close>.\<close>

definition main_try :: "environment \<Rightarrow> world \<Rightarrow> error option \<times> world" where
  "main_try env w =
     (case create_applied_migrations_table (server env) w of
        (Some e, w1) \<Rightarrow> (Some e, w1)
      | (None, w1) \<Rightarrow>
          (case get_applied_migrations (server env) (fetchall env) w1 of
             (Inl e, w2) \<Rightarrow> (Some e, w2)
           | (Inr applied_migrations, w2) \<Rightarrow>
               (case run_migrations env applied_migrations w2 of
                  (Some e, w3) \<Rightarrow> (Some e, w3)
                | (None, w3) \<Rightarrow> (None, logger Completed w3))))"

definition with_body :: "environment \<Rightarrow> world \<Rightarrow> error option \<times> world" where
  "with_body env w = (case main_try env w of (r, w') \<Rightarrow> (r, close_cursor w'))"

text \<open>
  The context manager \<^verbatim>\<open>database_connection\<close> around a body: \<^verbatim>\<open>sys.exit(1)\<close> when the
  variable is unset or empty, or when \<^verbatim>\<open>psycopg2.connect\<close> raises; a \<^verbatim>\<open>psycopg2.Error\<close> of
  the body is caught, logged and turned into \<^verbatim>\<open>sys.exit(1)\<close>; the connection is closed on
  every path that opened it.
\<close>

definition database_connection ::
  "environment \<Rightarrow> (world \<Rightarrow> error option \<times> world) \<Rightarrow> world \<Rightarrow> error option \<times> world" where
  "database_connection env body w =
     (case DATABASE_URL env of
        None \<Rightarrow> (Some (SystemExit 1), logger DatabaseUrlNotSet w)
      | Some connection_string \<Rightarrow>
          if connection_string = [] then (Some (SystemExit 1), logger DatabaseUrlNotSet w)
          else
            (case connect env connection_string of
               Some msg \<Rightarrow> (Some (SystemExit 1), logger (ConnectionError msg) w)
             | None \<Rightarrow>
                 (case body w of
                    (Some (DatabaseError msg), w1) \<Rightarrow>
                      (Some (SystemExit 1), close_connection (logger (ConnectionError msg) w1))
                  | (r, w1) \<Rightarrow> (r, close_connection w1))))"

definition main :: "environment \<Rightarrow> error option \<times> world" where
  "main env =
     database_connection env (with_body env)
       (logger Starting
          \<lparr>isolation_level = initial_isolation_level env, calls = [], logged = []\<rparr>)"

text \<open>
  The exit status of the interpreter: 0 when \<^verbatim>\<open>main\<close> returns, the argument of
  \<^verbatim>\<open>sys.exit\<close>, and 1 for any other exception that nothing caught.
\<close>

definition exit_status :: "error option \<Rightarrow> int" where
  "exit_status r = (case r of None \<Rightarrow> 0 | Some (SystemExit n) \<Rightarrow> n | Some _ \<Rightarrow> 1)"

subsection \<open>Notions used in the statements\<close>

text \<open>
  The semicolon-delimited statements of a file whose trimmed text is not empty, trimmed, in
  the order of the file.
\<close>

definition statements_of :: "string \<Rightarrow> string list" where
  "statements_of sql = filter (\<lambda>s. s \<noteq> []) (map strip (split CHR '';'' sql))"

text \<open>The calls a run added to the history.\<close>

definition new_calls :: "world \<Rightarrow> world \<Rightarrow> call list" where
  "new_calls w w' = drop (length (calls w)) (calls w')"

text \<open>The three calls of \<^verbatim>\<open>record_migration\<close> when none raises.\<close>

definition record_calls :: "string \<Rightarrow> call list" where
  "record_calls filename =
     [Execute ''BEGIN;'' [], Execute insert_sql [filename], Execute ''COMMIT;'' []]"

text \<open>
  The calls \<^verbatim>\<open>apply_migration\<close> can make for a file: a change of the isolation level, or an
  \<^verbatim>\<open>execute\<close> without parameters of BEGIN;, COMMIT;, the content, or one of its statements.
\<close>

fun migration_call :: "migration_file \<Rightarrow> call \<Rightarrow> bool" where
  "migration_call f (SetIsolationLevel level) = True"
| "migration_call f (Execute sql params) =
     (params = [] \<and>
      (sql = ''BEGIN;'' \<or> sql = ''COMMIT;'' \<or> sql = content f \<or>
       sql \<in> set (statements_of (content f))))"
| "migration_call f c = False"

text \<open>
  The calls \<^verbatim>\<open>process_migration_files\<close> can make: the rollback, and for a file of the list
  whose name is not in the applied set the calls of \<^verbatim>\<open>apply_migration\<close> and the insert of
  its name.
\<close>

definition process_call :: "migration_file list \<Rightarrow> string set \<Rightarrow> call \<Rightarrow> bool" where
  "process_call files applied c =
     (c = Execute ''ROLLBACK;'' [] \<or>
      (\<exists>g \<in> set files. name g \<notin> applied \<and>
         (migration_call g c \<or> c = Execute insert_sql [name g])))"

text \<open>
  The file a referenced table name resolves to: the first file of the sorted list whose
  name starts with the table name, as in the generator expression of \<^verbatim>\<open>visit\<close>.
\<close>

definition resolve_table :: "migration_file list \<Rightarrow> string \<Rightarrow> migration_file option" where
  "resolve_table sorted_files dep_table = find (\<lambda>f. prefix dep_table (name f)) sorted_files"

text \<open>The files a file depends on: those its referenced tables resolve to.\<close>

definition resolved_dependencies :: "migration_file list \<Rightarrow> migration_file \<Rightarrow> migration_file set" where
  "resolved_dependencies sorted_files f =
     (\<Union>t \<in> get_table_references (content f). set_option (resolve_table sorted_files t))"

text \<open>The dependency relation on filenames: \<open>(f, g)\<close> when the file \<open>f\<close> depends on \<open>g\<close>.\<close>

definition dependency_edges :: "migration_file list \<Rightarrow> (string \<times> string) set" where
  "dependency_edges sorted_files =
     (\<Union>f \<in> set sorted_files. (\<lambda>g. (name f, name g)) ` resolved_dependencies sorted_files f)"

text \<open>\<open>x\<close> stands in the list before the first \<open>y\<close>, and \<open>y\<close> is in the list.\<close>

definition precedes :: "'a \<Rightarrow> 'a \<Rightarrow> 'a list \<Rightarrow> bool" where
  "precedes x y xs \<longleftrightarrow> y \<in> set xs \<and> x \<in> set (takeWhile (\<lambda>z. z \<noteq> y) xs)"

text \<open>
  What the loop over a set of strings is known to do: it yields the elements of the set
  (in some order, here even with repetitions allowed).
\<close>

definition enumerates :: "(string set \<Rightarrow> string list) \<Rightarrow> bool" where
  "enumerates order \<longleftrightarrow> (\<forall>S. finite S \<longrightarrow> set (order S) = S)"

text \<open>
  Notions of the proofs about \<^verbatim>\<open>visit\<close>. A call extends the state by the files \<open>new\<close>: they
  are appended to the result, their names join the visited names, they are files of the
  list with distinct names, none visited before. The grey names are visited and not yet
  in the result: the calls of \<^verbatim>\<open>visit\<close> that have not returned.
\<close>

definition extends :: "migration_file list \<Rightarrow> visit_state \<Rightarrow> visit_state \<Rightarrow> migration_file list \<Rightarrow> bool" where
  "extends fs st st' new \<longleftrightarrow>
     result st' = result st @ new \<and> visited st' = visited st \<union> name ` set new \<and>
     set new \<subseteq> set fs \<and> distinct (map name new) \<and> name ` set new \<inter> visited st = {}"

definition grey :: "visit_state \<Rightarrow> string set" where
  "grey st = visited st - name ` set (result st)"

text \<open>
  In a result every file comes after each of its dependencies, those dependencies apart
  that depend on the file in turn (through one or more steps).
\<close>

definition dependencies_first :: "migration_file list \<Rightarrow> migration_file list \<Rightarrow> bool" where
  "dependencies_first fs res \<longleftrightarrow>
     (\<forall>pre f post. res = pre @ f # post \<longrightarrow>
        (\<forall>g \<in> resolved_dependencies fs f.
           (name g, name f) \<notin> (dependency_edges fs)\<^sup>+ \<longrightarrow> g \<in> set pre))"

text \<open>
  The setting of \<^verbatim>\<open>topological_sort\<close>: distinct filenames, a dictionary that maps each
  filename to the references of its file, and a loop that enumerates.
\<close>

definition dfs_setting ::
  "(string set \<Rightarrow> string list) \<Rightarrow> migration_file list \<Rightarrow> (string \<rightharpoonup> string set) \<Rightarrow> bool" where
  "dfs_setting order fs deps \<longleftrightarrow>
     distinct (map name fs) \<and> enumerates order \<and>
     (\<forall>f \<in> set fs. deps (name f) = Some (get_table_references (content f)))"

text \<open>
  The run of \<^verbatim>\<open>main\<close>. It is connected when the variable holds a non-empty connection
  string and \<^verbatim>\<open>psycopg2.connect\<close> returns. Its first three calls create the tracking table,
  commit, and select the applied filenames; the setup succeeds when the server accepts the
  three. The world in which \<^verbatim>\<open>process_migration_files\<close> then starts holds these calls.
\<close>

definition setup_calls :: "call list" where
  "setup_calls = [Execute create_table_sql [], Commit, Execute select_sql []]"

definition connected :: "environment \<Rightarrow> bool" where
  "connected env \<longleftrightarrow>
     (case DATABASE_URL env of
        None \<Rightarrow> False
      | Some connection_string \<Rightarrow>
          connection_string \<noteq> [] \<and> connect env connection_string = None)"

definition setup_succeeds :: "environment \<Rightarrow> bool" where
  "setup_succeeds env \<longleftrightarrow>
     server env (take 1 setup_calls) = None \<and> server env (take 2 setup_calls) = None \<and>
     server env setup_calls = None"

definition world_before_processing :: "environment \<Rightarrow> world" where
  "world_before_processing env =
     \<lparr>isolation_level = initial_isolation_level env, calls = setup_calls,
      logged = [Starting, Processing (length (glob_sql env))]\<rparr>"

definition initial_world :: "environment \<Rightarrow> world" where
  "initial_world env =
     logger Starting \<lparr>isolation_level = initial_isolation_level env, calls = [], logged = []\<rparr>"

text \<open>The insert of a filename into the tracking table, as \<^verbatim>\<open>record_migration\<close> issues it.\<close>

definition insert_call :: "string \<Rightarrow> call" where
  "insert_call filename = Execute insert_sql [filename]"

text \<open>
  Where the inserts stand in a list of calls \<open>cs\<close> made after the history: each insert of a
  filename is the insert of a file of the list that is not in the applied set; the call
  before it is BEGIN;, and the history up to that BEGIN; is the history at which a call of
  \<^verbatim>\<open>apply_migration\<close> for this file returned without an exception; the call after it is
  COMMIT;, or the rollback that ends the run when the insert raised.
\<close>

definition inserts_placed ::
  "database \<Rightarrow> migration_file list \<Rightarrow> string set \<Rightarrow> call list \<Rightarrow> call list \<Rightarrow> bool" where
  "inserts_placed db files applied history cs \<longleftrightarrow>
     (\<forall>pre post filename. cs = pre @ insert_call filename # post \<longrightarrow>
        (\<exists>f \<in> set files. name f = filename \<and> filename \<notin> applied \<and>
           (\<exists>pre' w0 w1. pre = pre' @ [Execute ''BEGIN;'' []] \<and>
              apply_migration db f w0 = (None, w1) \<and> calls w1 = history @ pre')) \<and>
        (\<exists>post'. post = Execute ''COMMIT;'' [] # post' \<or> post = [Execute ''ROLLBACK;'' []]))"

text \<open>
  The SQL texts the runner writes itself, and the texts it takes from the files it applies:
  the content of a file that is not in the applied set, or one of its statements.
\<close>

definition runner_statements :: "string set" where
  "runner_statements =
     {''BEGIN;'', ''COMMIT;'', ''ROLLBACK;'', insert_sql, create_table_sql, select_sql}"

definition file_statement :: "migration_file list \<Rightarrow> string set \<Rightarrow> string \<Rightarrow> bool" where
  "file_statement files applied sql \<longleftrightarrow>
     (\<exists>g \<in> set files. name g \<notin> applied \<and>
        (sql = content g \<or> sql \<in> set (statements_of (content g))))"

subsection \<open>Example inputs\<close>

definition example_world :: world where
  "example_world = \<lparr>isolation_level = Some 1, calls = [], logged = []\<rparr>"

text \<open>A server that accepts every call, and one that refuses one statement.\<close>

definition accepting :: database where
  "accepting cs = None"

definition refusing :: "string \<Rightarrow> database" where
  "refusing sql cs = (if cs \<noteq> [] \<and> last cs = Execute sql [] then Some ''boom'' else None)"

definition database_file :: migration_file where
  "database_file = \<lparr>name = ''001_db.sql'',
     content = ''create database foo; ; CREATE TABLE t (x int); DROP TABLE t''\<rparr>"



definition first_file :: migration_file where
  "first_file = \<lparr>name = ''001_init.sql'', content = ''CREATE TABLE a (x int);''\<rparr>"

definition second_file :: migration_file where
  "second_file = \<lparr>name = ''002_b.sql'', content = ''CREATE TABLE b (x int);''\<rparr>"

definition third_file :: migration_file where
  "third_file = \<lparr>name = ''003_c.sql'', content = ''CREATE TABLE c (x int);''\<rparr>"

definition a_table :: migration_file where
  "a_table = \<lparr>name = ''a_table.sql'', content = ''FOREIGN KEY REFERENCES b''\<rparr>"

definition b_table :: migration_file where
  "b_table = \<lparr>name = ''b_table.sql'', content = ''CREATE TABLE b (id INT);''\<rparr>"

definition a_orders :: migration_file where
  "a_orders = \<lparr>name = ''a_orders.sql'',
     content = ''CREATE TABLE a_orders (u INT REFERENCES d_users);''\<rparr>"

definition b_logs :: migration_file where
  "b_logs = \<lparr>name = ''b_logs.sql'', content = ''CREATE TABLE b_logs (x INT);''\<rparr>"

definition d_users :: migration_file where
  "d_users = \<lparr>name = ''d_users.sql'', content = ''CREATE TABLE d_users (id INT);''\<rparr>"

definition e_posts :: migration_file where
  "e_posts = \<lparr>name = ''e_posts.sql'',
     content = ''CREATE TABLE e_posts (c INT REFERENCES f_comments);''\<rparr>"

definition f_comments :: migration_file where
  "f_comments = \<lparr>name = ''f_comments.sql'',
     content = ''CREATE TABLE f_comments (p INT REFERENCES e_posts);''\<rparr>"


definition example_environment :: environment where
  "example_environment =
     \<lparr>DATABASE_URL = Some ''postgresql://app@db/app'', connect = (\<lambda>url. None),
      initial_isolation_level = Some 1, server = accepting, fetchall = [],
      migrations_dir_exists = True, glob_sql = [second_file, first_file],
      set_order = sorted_list_of_set\<rparr>"

section \<open>Properties\<close>

subsection \<open>Calls made by one migration\<close>

lemma execute_effect:
  "execute db sql params w = (r, w') \<Longrightarrow>
     calls w' = calls w @ [Execute sql params] \<and> isolation_level w' = isolation_level w \<and>
     logged w' = logged w \<and> r = map_option DatabaseError (db (calls w'))"
  by (auto simp: execute_def Let_def)

lemma execute_statements_effect:
  "execute_statements db ss w = (r, w') \<Longrightarrow>
     \<exists>executed. calls w' = calls w @ map (\<lambda>s. Execute s []) executed \<and>
       prefix executed (filter (\<lambda>s. s \<noteq> []) (map strip ss)) \<and>
       (r = None \<longrightarrow> executed = filter (\<lambda>s. s \<noteq> []) (map strip ss)) \<and>
       (r \<noteq> None \<longrightarrow> executed \<noteq> [] \<and> r = map_option DatabaseError (db (calls w'))) \<and>
       isolation_level w' = isolation_level w \<and> logged w' = logged w"
proof (induction ss arbitrary: w)
  case Nil
  then show ?case
    by auto
next
  case (Cons s ss)
  show ?case
  proof (cases "strip s = []")
    case True
    with Cons.prems have "execute_statements db ss w = (r, w')"
      by simp
    from Cons.IH [OF this] True show ?thesis
      by simp
  next
    case False
    obtain r1 w1 where ex: "execute db (strip s) [] w = (r1, w1)"
      by (cases "execute db (strip s) [] w")
    note eff = execute_effect [OF ex]
    show ?thesis
    proof (cases r1)
      case None
      with Cons.prems False ex have "execute_statements db ss w1 = (r, w')"
        by simp
      from Cons.IH [OF this] obtain executed where
        e: "calls w' = calls w1 @ map (\<lambda>s. Execute s []) executed"
           "prefix executed (filter (\<lambda>s. s \<noteq> []) (map strip ss))"
           "r = None \<longrightarrow> executed = filter (\<lambda>s. s \<noteq> []) (map strip ss)"
           "r \<noteq> None \<longrightarrow> executed \<noteq> [] \<and> r = map_option DatabaseError (db (calls w'))"
           "isolation_level w' = isolation_level w1" "logged w' = logged w1"
        by blast
      with eff False show ?thesis
        by (intro exI [of _ "strip s # executed"]) simp
    next
      case (Some e)
      with Cons.prems False ex have "r = Some e" "w' = w1"
        by simp_all
      with eff False Some show ?thesis
        by (intro exI [of _ "[strip s]"]) auto
    qed
  qed
qed

lemma autocommit_branch:
  assumes "requires_autocommit (content f)" and "apply_migration db f w = (r, w')"
  shows "isolation_level w' = isolation_level w \<and>
    (\<exists>executed.
       calls w' = calls w @ [SetIsolationLevel (Some 0)] @ map (\<lambda>s. Execute s []) executed @
                    [SetIsolationLevel (isolation_level w)] \<and>
       prefix executed (statements_of (content f)) \<and>
       (r = None \<longrightarrow> executed = statements_of (content f)) \<and>
       (r \<noteq> None \<longrightarrow> executed \<noteq> [] \<and>
          r = map_option DatabaseError
                (db (calls w @ [SetIsolationLevel (Some 0)] @ map (\<lambda>s. Execute s []) executed))))"
proof -
  obtain r2 w2 where es: "execute_statements db (split CHR '';'' (content f))
      (set_isolation_level (Some 0) w) = (r2, w2)"
    by (cases "execute_statements db (split CHR '';'' (content f)) (set_isolation_level (Some 0) w)")
  with assms have r: "r = r2" and w': "w' = set_isolation_level (isolation_level w) w2"
    by (simp_all add: apply_migration_def Let_def)
  from execute_statements_effect [OF es] obtain executed where
    "calls w2 = calls (set_isolation_level (Some 0) w) @ map (\<lambda>s. Execute s []) executed"
    "prefix executed (statements_of (content f))"
    "r2 = None \<longrightarrow> executed = statements_of (content f)"
    "r2 \<noteq> None \<longrightarrow> executed \<noteq> [] \<and> r2 = map_option DatabaseError (db (calls w2))"
    unfolding statements_of_def by blast
  with r w' show ?thesis
    by (auto simp: set_isolation_level_def)
qed




text \<open>
  C7. In autocommit mode \<^verbatim>\<open>apply_migration\<close> executes the statements of
  \<open>statements_of\<close> (the pieces between semicolons whose trimmed text is not empty), one
  \<^verbatim>\<open>execute\<close> call each and in order: all of them when none raises, and up to the first
  one that raises otherwise, whose error is the result. In both cases the last call sets
  the isolation level back, and the level after the call is the level before it.
\<close>

theorem autocommit_statements_and_isolation:
  assumes "requires_autocommit (content f)" and "apply_migration db f w = (r, w')"
  shows "isolation_level w' = isolation_level w \<and>
    (\<exists>executed.
       calls w' = calls w @ [SetIsolationLevel (Some 0)] @ map (\<lambda>s. Execute s []) executed @
                    [SetIsolationLevel (isolation_level w)] \<and>
       prefix executed (statements_of (content f)) \<and>
       (r = None \<longrightarrow> executed = statements_of (content f)) \<and>
       (r \<noteq> None \<longrightarrow> executed \<noteq> [] \<and>
          r = map_option DatabaseError
                (db (calls w @ [SetIsolationLevel (Some 0)] @ map (\<lambda>s. Execute s []) executed))))"
  using assms by (rule autocommit_branch)

theorem autocommit_statements_and_isolation_witness:
  "requires_autocommit (content database_file) \<and>
   apply_migration (refusing ''CREATE TABLE t (x int)'') database_file example_world =
     (Some (DatabaseError ''boom''),
      \<lparr>isolation_level = Some 1,
        calls = [SetIsolationLevel (Some 0), Execute ''create database foo'' [],
                 Execute ''CREATE TABLE t (x int)'' [], SetIsolationLevel (Some 1)],
        logged = []\<rparr>) \<and>
   statements_of (content database_file) =
     [''create database foo'', ''CREATE TABLE t (x int)'', ''DROP TABLE t''] \<and>
   isolation_level (snd (apply_migration (refusing ''CREATE TABLE t (x int)'') database_file
     example_world)) = isolation_level example_world"
proof -
  have a: "requires_autocommit (content database_file)"
    by code_simp
  have b: "apply_migration (refusing ''CREATE TABLE t (x int)'') database_file example_world =
     (Some (DatabaseError ''boom''),
      \<lparr>isolation_level = Some 1,
        calls = [SetIsolationLevel (Some 0), Execute ''create database foo'' [],
                 Execute ''CREATE TABLE t (x int)'' [], SetIsolationLevel (Some 1)],
        logged = []\<rparr>)"
    by code_simp
  have c: "statements_of (content database_file) =
     [''create database foo'', ''CREATE TABLE t (x int)'', ''DROP TABLE t'']"
    by code_simp
  from autocommit_statements_and_isolation [OF a b] a b c show ?thesis
    by simp
qed

subsection \<open>Case of letters\<close>

lemma sublist_map: "sublist xs ys \<Longrightarrow> sublist (map f xs) (map f ys)"
proof -
  assume "sublist xs ys"
  then obtain ps ss where "ys = ps @ xs @ ss"
    by (auto simp: sublist_def)
  then have "map f ys = map f ps @ map f xs @ map f ss"
    by simp
  then show ?thesis
    unfolding sublist_def by blast
qed

lemma strip_keeps_prefix:
  assumes "prefix p s" and "p \<noteq> []" and "\<not> is_space (hd p)" and "\<not> is_space (last p)"
  shows "prefix p (strip s)"
proof -
  from assms(1) obtain t where s: "s = p @ t"
    by (auto simp: prefix_def)
  from assms(2,3) have front: "dropWhile is_space (p @ t) = p @ t"
    by (cases p) auto
  from assms(2,4) have rear: "dropWhile is_space (rev p) = rev p"
    by (cases "rev p") (auto simp: last_rev [symmetric] simp del: last_rev)
  have "dropWhile is_space (rev t @ rev p) =
      (if \<forall>x\<in>set (rev t). is_space x then rev p else dropWhile is_space (rev t) @ rev p)"
    by (simp add: dropWhile_append rear)
  then show ?thesis
    unfolding strip_def s front by (auto simp del: dropWhile_append2)
qed

lemma references_of_lines_eq:
  "references_of_lines ls refs =
     refs \<union> {t. \<exists>l \<in> set ls. sublist ''REFERENCES'' l \<and> search_references l = Some t}"
  by (induction ls arbitrary: refs) (auto split: option.splits)

lemma upper_literals:
  "upper ''create database'' = ''CREATE DATABASE''"
  "upper ''begin'' = ''BEGIN''"
  by code_simp+

text \<open>
  C10. Reference extraction reads the content as it is: a table name is extracted exactly
  from the lines that contain the upper-case literal REFERENCES and where the pattern
  matches, so a line with only lower-case "references" adds nothing. Mode detection reads
  the upper-cased content: two contents with the same upper-casing are detected alike, a
  content containing lower-case "create database" requires autocommit, and a content that
  starts with lower-case "begin" has a transaction block.
\<close>

theorem case_sensitivity:
  "(t \<in> get_table_references sql \<longleftrightarrow>
      (\<exists>line \<in> set (split (CHR 0x0A) sql).
         sublist ''REFERENCES'' line \<and> search_references line = Some t)) \<and>
   (upper sql = upper sql' \<longrightarrow>
      requires_autocommit sql = requires_autocommit sql' \<and>
      has_transaction_block sql = has_transaction_block sql') \<and>
   (sublist ''create database'' sql \<longrightarrow> requires_autocommit sql) \<and>
   (prefix ''begin'' sql \<longrightarrow> has_transaction_block sql)"
proof (intro conjI impI)
  show "t \<in> get_table_references sql \<longleftrightarrow>
      (\<exists>line \<in> set (split (CHR 0x0A) sql).
         sublist ''REFERENCES'' line \<and> search_references line = Some t)"
    by (simp add: get_table_references_def references_of_lines_eq)
next
  assume "upper sql = upper sql'"
  then show "requires_autocommit sql = requires_autocommit sql'"
    by (simp add: requires_autocommit_def)
next
  assume "upper sql = upper sql'"
  then show "has_transaction_block sql = has_transaction_block sql'"
    by (simp add: has_transaction_block_def)
next
  assume "sublist ''create database'' sql"
  then have "sublist (upper ''create database'') (upper sql)"
    unfolding upper_def by (rule sublist_map)
  then show "requires_autocommit sql"
    by (auto simp: requires_autocommit_def AUTOCOMMIT_STATEMENTS_def upper_literals)
next
  assume "prefix ''begin'' sql"
  then have "prefix (upper ''begin'') (upper sql)"
    unfolding upper_def by (rule map_mono_prefix)
  then have "prefix ''BEGIN'' (upper sql)"
    by (simp only: upper_literals)
  then have "prefix ''BEGIN'' (strip (upper sql))"
    by (rule strip_keeps_prefix) (simp_all add: is_space_def)
  then show "has_transaction_block sql"
    by (simp add: has_transaction_block_def)
qed

theorem case_sensitivity_witness:
  "''users'' \<notin> get_table_references ''user_id int references users(id)'' \<and>
   ''users'' \<in> get_table_references ''user_id int REFERENCES users(id)'' \<and>
   sublist ''create database'' ''create database foo;'' \<and>
   requires_autocommit ''create database foo;'' \<and>
   prefix ''begin'' ''begin; select 1; commit;'' \<and>
   has_transaction_block ''begin; select 1; commit;'' \<and>
   upper ''Alter System x'' = upper ''alter system X'' \<and>
   requires_autocommit ''Alter System x'' = requires_autocommit ''alter system X''"
proof -
  have a: "\<not> (\<exists>line \<in> set (split (CHR 0x0A) ''user_id int references users(id)'').
       sublist ''REFERENCES'' line \<and> search_references line = Some ''users'')"
    by code_simp
  have b: "\<exists>line \<in> set (split (CHR 0x0A) ''user_id int REFERENCES users(id)'').
       sublist ''REFERENCES'' line \<and> search_references line = Some ''users''"
    by code_simp
  have c: "sublist ''create database'' ''create database foo;''"
    by code_simp
  have d: "prefix ''begin'' ''begin; select 1; commit;''"
    by code_simp
  have e: "upper ''Alter System x'' = upper ''alter system X''"
    by code_simp
  from a case_sensitivity [of "''users''" "''user_id int references users(id)''"]
  have 1: "''users'' \<notin> get_table_references ''user_id int references users(id)''"
    by blast
  from b case_sensitivity [of "''users''" "''user_id int REFERENCES users(id)''"]
  have 2: "''users'' \<in> get_table_references ''user_id int REFERENCES users(id)''"
    by blast
  from c case_sensitivity [of _ "''create database foo;''"]
  have 3: "requires_autocommit ''create database foo;''"
    by blast
  from d case_sensitivity [of _ "''begin; select 1; commit;''"]
  have 4: "has_transaction_block ''begin; select 1; commit;''"
    by blast
  from e case_sensitivity [of _ "''Alter System x''" "''alter system X''"]
  have 5: "requires_autocommit ''Alter System x'' = requires_autocommit ''alter system X''"
    by blast
  from 1 2 3 4 5 c d e show ?thesis
    by blast
qed

subsection \<open>Processing the files\<close>

lemma process_append:
  "process_migration_files db (xs @ ys) applied w =
     (case process_migration_files db xs applied w of
        (None, w1) \<Rightarrow> process_migration_files db ys applied w1
      | (Some e, w1) \<Rightarrow> (Some e, w1))"
proof (induction xs arbitrary: w)
  case Nil
  show ?case
    by simp
next
  case (Cons x xs)
  show ?case
    by (auto simp: Let_def Cons.IH except_block_def rollback_and_exit_def
        split: prod.splits option.splits error.splits)
qed

lemma execute_raises:
  "execute db sql params w = (Some e, w') \<Longrightarrow> \<exists>msg. e = DatabaseError msg"
  by (auto simp: execute_def Let_def)

lemma apply_migration_effect:
  assumes "apply_migration db f w = (r, w')"
  shows "\<exists>cs. calls w' = calls w @ cs \<and> (\<forall>c \<in> set cs. migration_call f c) \<and>
    isolation_level w' = isolation_level w \<and> logged w' = logged w \<and>
    (r = None \<or> (\<exists>msg. r = Some (DatabaseError msg)))"
proof (cases "requires_autocommit (content f)")
  case True
  obtain r2 w2 where es: "execute_statements db (split CHR '';'' (content f))
      (set_isolation_level (Some 0) w) = (r2, w2)"
    by (cases "execute_statements db (split CHR '';'' (content f)) (set_isolation_level (Some 0) w)")
  with assms True have r: "r = r2" and w': "w' = set_isolation_level (isolation_level w) w2"
    by (simp_all add: apply_migration_def Let_def)
  from execute_statements_effect [OF es] obtain executed where
    e: "calls w2 = calls (set_isolation_level (Some 0) w) @ map (\<lambda>s. Execute s []) executed"
    "prefix executed (statements_of (content f))"
    "r2 \<noteq> None \<longrightarrow> r2 = map_option DatabaseError (db (calls w2))"
    "logged w2 = logged (set_isolation_level (Some 0) w)"
    unfolding statements_of_def by blast
  from e(2) have sub: "set executed \<subseteq> set (statements_of (content f))"
    by (rule set_mono_prefix)
  let ?cs = "[SetIsolationLevel (Some 0)] @ map (\<lambda>s. Execute s []) executed @
      [SetIsolationLevel (isolation_level w)]"
  have "calls w' = calls w @ ?cs"
    using e(1) w' by (simp add: set_isolation_level_def)
  moreover have "\<forall>c \<in> set ?cs. migration_call f c"
    using sub by auto
  moreover have "isolation_level w' = isolation_level w" "logged w' = logged w"
    using w' e(4) by (simp_all add: set_isolation_level_def)
  moreover have "r = None \<or> (\<exists>msg. r = Some (DatabaseError msg))"
    using e(3) r by (cases r2) (auto simp: map_option_case split: option.splits)
  ultimately show ?thesis
    by blast
next
  case False
  note no_auto = this
  show ?thesis
  proof (cases "has_transaction_block (content f)")
    case True
    with no_auto assms have ex: "execute db (content f) [] w = (r, w')"
      by (simp add: apply_migration_def)
    from execute_effect [OF ex] show ?thesis
      by (intro exI [of _ "[Execute (content f) []]"]) (auto simp: map_option_case split: option.splits)
  next
    case False
    obtain r1 w1 where e1: "execute db ''BEGIN;'' [] w = (r1, w1)"
      by (cases "execute db ''BEGIN;'' [] w")
    obtain r2 w2 where e2: "execute db (content f) [] w1 = (r2, w2)"
      by (cases "execute db (content f) [] w1")
    obtain r3 w3 where e3: "execute db ''COMMIT;'' [] w2 = (r3, w3)"
      by (cases "execute db ''COMMIT;'' [] w2")
    note effs = execute_effect [OF e1] execute_effect [OF e2] execute_effect [OF e3]
    from assms no_auto False e1 e2 e3 have
      "(r, w') = (if r1 \<noteq> None then (r1, w1) else if r2 \<noteq> None then (r2, w2) else (r3, w3))"
      by (auto simp: apply_migration_def Let_def split: option.splits)
    then consider "r = r1" "w' = w1" | "r = r2" "w' = w2" | "r = r3" "w' = w3"
      by (auto split: if_splits)
    then show ?thesis
    proof cases
      case 1
      with effs show ?thesis
        by (intro exI [of _ "[Execute ''BEGIN;'' []]"])
          (auto simp: map_option_case split: option.splits)
    next
      case 2
      with effs show ?thesis
        by (intro exI [of _ "[Execute ''BEGIN;'' [], Execute (content f) []]"])
          (auto simp: map_option_case split: option.splits)
    next
      case 3
      with effs show ?thesis
        by (intro exI [of _ "[Execute ''BEGIN;'' [], Execute (content f) [], Execute ''COMMIT;'' []]"])
          (auto simp: map_option_case split: option.splits)
    qed
  qed
qed

lemma record_migration_effect:
  assumes "record_migration db filename w = (r, w')"
  shows "\<exists>cs. calls w' = calls w @ cs \<and> cs \<noteq> [] \<and> prefix cs (record_calls filename) \<and>
    (r = None \<longrightarrow> cs = record_calls filename) \<and>
    isolation_level w' = isolation_level w \<and> logged w' = logged w \<and>
    (r = None \<or> (\<exists>msg. r = Some (DatabaseError msg)))"
proof -
  obtain r1 w1 where e1: "execute db ''BEGIN;'' [] w = (r1, w1)"
    by (cases "execute db ''BEGIN;'' [] w")
  obtain r2 w2 where e2: "execute db insert_sql [filename] w1 = (r2, w2)"
    by (cases "execute db insert_sql [filename] w1")
  obtain r3 w3 where e3: "execute db ''COMMIT;'' [] w2 = (r3, w3)"
    by (cases "execute db ''COMMIT;'' [] w2")
  note effs = execute_effect [OF e1] execute_effect [OF e2] execute_effect [OF e3]
  from assms e1 e2 e3 have
    "(r, w') = (if r1 \<noteq> None then (r1, w1) else if r2 \<noteq> None then (r2, w2) else (r3, w3))"
    by (auto simp: record_migration_def split: option.splits)
  then consider "r = r1" "w' = w1" "r1 \<noteq> None" | "r = r2" "w' = w2" "r2 \<noteq> None"
    | "r = r3" "w' = w3"
    by (auto split: if_splits)
  then show ?thesis
  proof cases
    case 1
    with effs show ?thesis
      by (intro exI [of _ "[Execute ''BEGIN;'' []]"])
        (auto simp: record_calls_def map_option_case split: option.splits)
  next
    case 2
    with effs show ?thesis
      by (intro exI [of _ "[Execute ''BEGIN;'' [], Execute insert_sql [filename]]"])
        (auto simp: record_calls_def map_option_case split: option.splits)
  next
    case 3
    with effs show ?thesis
      by (intro exI [of _ "record_calls filename"])
        (auto simp: record_calls_def map_option_case split: option.splits)
  qed
qed

lemma process_call_mono:
  "process_call files applied c \<Longrightarrow> set files \<subseteq> set files' \<Longrightarrow> process_call files' applied c"
  by (auto simp: process_call_def)

lemma logger_fields [simp]:
  "calls (logger ev w) = calls w"
  "isolation_level (logger ev w) = isolation_level w"
  "logged (logger ev w) = logged w @ [ev]"
  by (simp_all add: logger_def)

lemma apply_and_record_effect:
  assumes "apply_and_record db f w = (r, w')"
  shows "\<exists>cs. calls w' = calls w @ cs \<and>
    (\<forall>c \<in> set cs. migration_call f c \<or> c = Execute insert_sql [name f]) \<and>
    isolation_level w' = isolation_level w \<and>
    (r = None \<longrightarrow> sublist (record_calls (name f)) cs \<and>
       logged w' = logged w @ [AppliedSuccessfully (name f)]) \<and>
    (r \<noteq> None \<longrightarrow> logged w' = logged w) \<and>
    (r = None \<or> (\<exists>msg. r = Some (DatabaseError msg)))"
proof -
  obtain ra wa where a: "apply_migration db f w = (ra, wa)"
    by (cases "apply_migration db f w")
  from apply_migration_effect [OF a] obtain ca where
    ca: "calls wa = calls w @ ca" "\<forall>c \<in> set ca. migration_call f c"
      "isolation_level wa = isolation_level w" "logged wa = logged w"
      "ra = None \<or> (\<exists>msg. ra = Some (DatabaseError msg))"
    by blast
  show ?thesis
  proof (cases ra)
    case (Some e)
    with assms a have "r = ra" "w' = wa"
      by (simp_all add: apply_and_record_def)
    with ca Some show ?thesis
      by (intro exI [of _ ca]) auto
  next
    case None
    obtain rr wr where rm: "record_migration db (name f) wa = (rr, wr)"
      by (cases "record_migration db (name f) wa")
    from record_migration_effect [OF rm] obtain cr where
      cr: "calls wr = calls wa @ cr" "prefix cr (record_calls (name f))"
        "rr = None \<longrightarrow> cr = record_calls (name f)"
        "isolation_level wr = isolation_level wa" "logged wr = logged wa"
        "rr = None \<or> (\<exists>msg. rr = Some (DatabaseError msg))"
      by blast
    from cr(2) have "set cr \<subseteq> set (record_calls (name f))"
      by (rule set_mono_prefix)
    then have crc: "\<forall>c \<in> set cr. migration_call f c \<or> c = Execute insert_sql [name f]"
      by (auto simp: record_calls_def)
    from assms a None rm have res: "r = rr"
      "w' = (if rr = None then logger (AppliedSuccessfully (name f)) wr else wr)"
      by (auto simp: apply_and_record_def split: option.splits)
    have "calls w' = calls w @ (ca @ cr)"
      using res ca(1) cr(1) by simp
    moreover have "\<forall>c \<in> set (ca @ cr). migration_call f c \<or> c = Execute insert_sql [name f]"
      using ca(2) crc by auto
    moreover have "r = None \<longrightarrow> sublist (record_calls (name f)) (ca @ cr)"
      using res cr(3) by auto
    ultimately show ?thesis
      using res ca cr by (intro exI [of _ "ca @ cr"]) auto
  qed
qed

lemma except_block_effect:
  assumes "except_block db filename (DatabaseError msg) w = (r, w')"
  shows "r = Some (SystemExit 1) \<and> calls w' = calls w @ [Execute ''ROLLBACK;'' []] \<and>
    isolation_level w' = isolation_level w \<and>
    logged w' = logged w @
      [FailedToApply filename msg,
       (case db (calls w') of None \<Rightarrow> RolledBack filename | Some m \<Rightarrow> RollbackFailed m),
       StoppingMigrations]"
  using assms
  by (auto simp: except_block_def rollback_and_exit_def execute_def Let_def
      split: option.splits)

lemma process_effect:
  "process_migration_files db files applied w = (r, w') \<Longrightarrow>
     \<exists>cs. calls w' = calls w @ cs \<and> (\<forall>c \<in> set cs. process_call files applied c) \<and>
       isolation_level w' = isolation_level w \<and>
       (r = None \<or> r = Some (SystemExit 1)) \<and>
       (r = None \<longrightarrow>
          (\<forall>g \<in> set files. name g \<notin> applied \<longrightarrow> sublist (record_calls (name g)) cs))"
proof (induction files arbitrary: w)
  case Nil
  then show ?case
    by simp
next
  case (Cons f files)
  show ?case
  proof (cases "name f \<in> applied")
    case True
    with Cons.prems have
      "process_migration_files db files applied (logger (Skipping (name f)) w) = (r, w')"
      by simp
    from Cons.IH [OF this] obtain cs where
      cs: "calls w' = calls w @ cs" "\<forall>c \<in> set cs. process_call files applied c"
        "isolation_level w' = isolation_level w" "r = None \<or> r = Some (SystemExit 1)"
        "r = None \<longrightarrow>
          (\<forall>g \<in> set files. name g \<notin> applied \<longrightarrow> sublist (record_calls (name g)) cs)"
      by auto
    from cs(2) have "\<forall>c \<in> set cs. process_call (f # files) applied c"
      by (auto intro: process_call_mono)
    with cs True show ?thesis
      by (intro exI [of _ cs]) auto
  next
    case False
    obtain r1 w1 where ar: "apply_and_record db f (logger (Applying (name f)) w) = (r1, w1)"
      by (cases "apply_and_record db f (logger (Applying (name f)) w)")
    from apply_and_record_effect [OF ar] obtain c1 where
      c1: "calls w1 = calls w @ c1"
        "\<forall>c \<in> set c1. migration_call f c \<or> c = Execute insert_sql [name f]"
        "isolation_level w1 = isolation_level w"
        "r1 = None \<longrightarrow> sublist (record_calls (name f)) c1"
        "r1 = None \<or> (\<exists>msg. r1 = Some (DatabaseError msg))"
      by auto
    from c1(2) False have p1: "\<forall>c \<in> set c1. process_call (f # files) applied c"
      by (auto simp: process_call_def)
    show ?thesis
    proof (cases r1)
      case None
      with Cons.prems False ar have "process_migration_files db files applied w1 = (r, w')"
        by simp
      from Cons.IH [OF this] obtain cs where
        cs: "calls w' = calls w1 @ cs" "\<forall>c \<in> set cs. process_call files applied c"
          "isolation_level w' = isolation_level w1" "r = None \<or> r = Some (SystemExit 1)"
          "r = None \<longrightarrow>
            (\<forall>g \<in> set files. name g \<notin> applied \<longrightarrow> sublist (record_calls (name g)) cs)"
        by auto
      from cs(2) have p2: "\<forall>c \<in> set cs. process_call (f # files) applied c"
        by (auto intro: process_call_mono)
      have "calls w' = calls w @ (c1 @ cs)"
        using cs(1) c1(1) by simp
      moreover have "\<forall>c \<in> set (c1 @ cs). process_call (f # files) applied c"
        using p1 p2 by auto
      moreover have "r = None \<longrightarrow>
          (\<forall>g \<in> set (f # files). name g \<notin> applied \<longrightarrow>
             sublist (record_calls (name g)) (c1 @ cs))"
        using cs(5) c1(4) None by (auto simp: sublist_append)
      ultimately show ?thesis
        using cs(3,4) c1(3) by (intro exI [of _ "c1 @ cs"]) auto
    next
      case (Some e)
      with c1(5) obtain msg where e: "e = DatabaseError msg"
        by auto
      with Cons.prems False ar Some have
        "except_block db (name f) (DatabaseError msg) w1 = (r, w')"
        by simp
      from except_block_effect [OF this] c1 p1 show ?thesis
        by (intro exI [of _ "c1 @ [Execute ''ROLLBACK;'' []]"]) (auto simp: process_call_def)
    qed
  qed
qed

lemma new_calls_append: "calls w' = calls w @ cs \<Longrightarrow> new_calls w w' = cs"
  by (simp add: new_calls_def)

text \<open>
  C5. A file whose name is in the applied set costs one log line and nothing else: the run
  over a list that holds it continues, after the files before it, with the files after it
  in a world that differs only by the line "Skipping"; no call is made on the cursor for it.
  In every run each call is the rollback or a call of \<^verbatim>\<open>apply_migration\<close> or
  \<^verbatim>\<open>record_migration\<close> for a file whose name is not in the applied set, and the insert of
  an applied name is never among the calls, so the runner leaves its tracking row alone.
\<close>

theorem skip_already_applied:
  assumes "name f \<in> applied"
  shows
    "process_migration_files db (pre @ f # post) applied w =
       (case process_migration_files db pre applied w of
          (None, w1) \<Rightarrow>
            process_migration_files db post applied (logger (Skipping (name f)) w1)
        | (Some e, w1) \<Rightarrow> (Some e, w1)) \<and>
     (\<forall>w1. calls (logger (Skipping (name f)) w1) = calls w1 \<and>
        isolation_level (logger (Skipping (name f)) w1) = isolation_level w1) \<and>
     (\<forall>files r w'. process_migration_files db files applied w = (r, w') \<longrightarrow>
        calls w' = calls w @ new_calls w w' \<and>
        (\<forall>c \<in> set (new_calls w w'). process_call files applied c) \<and>
        Execute insert_sql [name f] \<notin> set (new_calls w w'))"
proof (intro conjI allI impI)
  show "process_migration_files db (pre @ f # post) applied w =
       (case process_migration_files db pre applied w of
          (None, w1) \<Rightarrow>
            process_migration_files db post applied (logger (Skipping (name f)) w1)
        | (Some e, w1) \<Rightarrow> (Some e, w1))"
    using assms by (simp add: process_append split: prod.splits option.splits)
next
  fix files r w'
  assume run: "process_migration_files db files applied w = (r, w')"
  from process_effect [OF run] obtain cs where
    cs: "calls w' = calls w @ cs" "\<forall>c \<in> set cs. process_call files applied c"
    by blast
  from cs(1) have nc: "new_calls w w' = cs"
    by (rule new_calls_append)
  from cs(1) nc show "calls w' = calls w @ new_calls w w'"
    by simp
  from cs(2) nc show "\<forall>c \<in> set (new_calls w w'). process_call files applied c"
    by simp
  show "Execute insert_sql [name f] \<notin> set (new_calls w w')"
  proof
    assume "Execute insert_sql [name f] \<in> set (new_calls w w')"
    with cs(2) nc have "process_call files applied (Execute insert_sql [name f])"
      by simp
    with assms show False
      by (auto simp: process_call_def)
  qed
qed simp_all

theorem skip_already_applied_witness:
  "name first_file \<in> {''001_init.sql''} \<and>
   process_migration_files accepting [first_file, second_file] {''001_init.sql''} example_world =
     process_migration_files accepting [second_file] {''001_init.sql''}
       (logger (Skipping ''001_init.sql'') example_world) \<and>
   calls (logger (Skipping ''001_init.sql'') example_world) = calls example_world \<and>
   Execute insert_sql [''001_init.sql''] \<notin>
     set (new_calls example_world
       (snd (process_migration_files accepting [first_file, second_file] {''001_init.sql''}
          example_world)))"
proof -
  have a: "name first_file \<in> {''001_init.sql''}"
    by code_simp
  have n: "name first_file = ''001_init.sql''"
    by code_simp
  have run: "process_migration_files accepting [first_file, second_file] {''001_init.sql''}
      example_world =
    (None, snd (process_migration_files accepting [first_file, second_file] {''001_init.sql''}
      example_world))"
    by code_simp
  note inst = skip_already_applied [OF a, of accepting "[]" "[second_file]" example_world]
  from inst have 1:
    "process_migration_files accepting [first_file, second_file] {''001_init.sql''} example_world =
     process_migration_files accepting [second_file] {''001_init.sql''}
       (logger (Skipping ''001_init.sql'') example_world)"
    by (simp add: n)
  from inst have 2: "calls (logger (Skipping ''001_init.sql'') example_world) = calls example_world"
    by (simp add: n)
  from inst run have 3: "Execute insert_sql [''001_init.sql''] \<notin>
     set (new_calls example_world
       (snd (process_migration_files accepting [first_file, second_file] {''001_init.sql''}
          example_world)))"
    unfolding n by blast
  from a 1 2 3 show ?thesis
    by blast
qed

text \<open>
  C3. When the files \<open>pre\<close> were processed without an exception and applying or recording
  the next file \<open>f\<close> raises, \<^verbatim>\<open>process_migration_files\<close> raises \<^verbatim>\<open>SystemExit(1)\<close> (exit
  status 1) whatever files follow: after the call that raised, the only call is the
  rollback, so no later file is attempted. A rollback that fails is logged as such and the
  outcome is the same; the original error is in the log line before it. The calls made
  for the earlier files are a prefix of the history, and the begin, insert, commit of every
  earlier file that was not in the applied set is part of it.
\<close>

theorem halt_on_failure:
  assumes "process_migration_files db pre applied w = (None, w1)"
    and "name f \<notin> applied"
    and "apply_migration db f (logger (Applying (name f)) w1) = (Some e, w2) \<or>
         (\<exists>wa. apply_migration db f (logger (Applying (name f)) w1) = (None, wa) \<and>
            record_migration db (name f) wa = (Some e, w2))"
  shows
    "\<exists>msg w'. e = DatabaseError msg \<and>
       process_migration_files db (pre @ f # post) applied w = (Some (SystemExit 1), w') \<and>
       exit_status (fst (process_migration_files db (pre @ f # post) applied w)) = 1 \<and>
       calls w' = calls w2 @ [Execute ''ROLLBACK;'' []] \<and>
       logged w' = logged w2 @
         [FailedToApply (name f) msg,
          (case db (calls w') of None \<Rightarrow> RolledBack (name f) | Some m \<Rightarrow> RollbackFailed m),
          StoppingMigrations] \<and>
       prefix (calls w1) (calls w') \<and>
       (\<forall>g \<in> set pre. name g \<notin> applied \<longrightarrow> sublist (record_calls (name g)) (calls w'))"
proof -
  let ?wA = "logger (Applying (name f)) w1"
  from assms(3) have ar: "apply_and_record db f ?wA = (Some e, w2)"
    by (auto simp: apply_and_record_def)
  from apply_and_record_effect [OF ar] obtain c1 msg where
    c1: "calls w2 = calls w1 @ c1" and e: "e = DatabaseError msg"
    by auto
  obtain r' w' where ex: "except_block db (name f) (DatabaseError msg) w2 = (r', w')"
    by (cases "except_block db (name f) (DatabaseError msg) w2")
  note eff = except_block_effect [OF ex]
  from assms(1,2) ar e ex eff have run:
    "process_migration_files db (pre @ f # post) applied w = (Some (SystemExit 1), w')"
    by (simp add: process_append)
  from process_effect [OF assms(1)] obtain cs where
    cs: "calls w1 = calls w @ cs"
      "\<forall>g \<in> set pre. name g \<notin> applied \<longrightarrow> sublist (record_calls (name g)) cs"
    by auto
  have "\<forall>g \<in> set pre. name g \<notin> applied \<longrightarrow> sublist (record_calls (name g)) (calls w')"
  proof (intro ballI impI)
    fix g
    assume "g \<in> set pre" "name g \<notin> applied"
    with cs(2) have "sublist (record_calls (name g)) cs"
      by simp
    then have "sublist (record_calls (name g)) (calls w @ cs @ c1 @ [Execute ''ROLLBACK;'' []])"
      by (auto simp: sublist_append)
    with eff c1 cs(1) show "sublist (record_calls (name g)) (calls w')"
      by simp
  qed
  moreover have "prefix (calls w1) (calls w')"
    using eff c1 by simp
  ultimately show ?thesis
    using e run eff by (simp add: exit_status_def)
qed

theorem halt_on_failure_witness:
  "process_migration_files (refusing ''CREATE TABLE b (x int);'') [first_file] {} example_world =
     (None, snd (process_migration_files (refusing ''CREATE TABLE b (x int);'') [first_file] {}
        example_world)) \<and>
   name second_file \<notin> {} \<and>
   fst (apply_migration (refusing ''CREATE TABLE b (x int);'') second_file
     (logger (Applying (name second_file))
        (snd (process_migration_files (refusing ''CREATE TABLE b (x int);'') [first_file] {}
           example_world)))) = Some (DatabaseError ''boom'') \<and>
   process_migration_files (refusing ''CREATE TABLE b (x int);'')
       [first_file, second_file, third_file] {} example_world =
     (Some (SystemExit 1),
      \<lparr>isolation_level = Some 1,
        calls =
          [Execute ''BEGIN;'' [], Execute ''CREATE TABLE a (x int);'' [],
           Execute ''COMMIT;'' [], Execute ''BEGIN;'' [],
           Execute insert_sql [''001_init.sql''], Execute ''COMMIT;'' [],
           Execute ''BEGIN;'' [], Execute ''CREATE TABLE b (x int);'' [],
           Execute ''ROLLBACK;'' []],
        logged =
          [Applying ''001_init.sql'', AppliedSuccessfully ''001_init.sql'',
           Applying ''002_b.sql'', FailedToApply ''002_b.sql'' ''boom'',
           RolledBack ''002_b.sql'', StoppingMigrations]\<rparr>) \<and>
   (\<exists>w'. process_migration_files (refusing ''CREATE TABLE b (x int);'')
            ([first_file] @ second_file # [third_file]) {} example_world =
            (Some (SystemExit 1), w') \<and>
      sublist (record_calls (name first_file)) (calls w'))"
proof -
  let ?db = "refusing ''CREATE TABLE b (x int);''"
  let ?w1 = "snd (process_migration_files ?db [first_file] {} example_world)"
  let ?w2 = "snd (apply_migration ?db second_file (logger (Applying (name second_file)) ?w1))"
  have a: "process_migration_files ?db [first_file] {} example_world = (None, ?w1)"
    by code_simp
  have b: "name second_file \<notin> {}"
    by simp
  have c: "apply_migration ?db second_file (logger (Applying (name second_file)) ?w1) =
      (Some (DatabaseError ''boom''), ?w2)"
    by code_simp
  then have c': "apply_migration ?db second_file (logger (Applying (name second_file)) ?w1) =
      (Some (DatabaseError ''boom''), ?w2) \<or>
      (\<exists>wa. apply_migration ?db second_file (logger (Applying (name second_file)) ?w1) =
         (None, wa) \<and>
         record_migration ?db (name second_file) wa = (Some (DatabaseError ''boom''), ?w2))"
    by (rule disjI1)
  have d: "process_migration_files ?db [first_file, second_file, third_file] {} example_world =
     (Some (SystemExit 1),
      \<lparr>isolation_level = Some 1,
        calls =
          [Execute ''BEGIN;'' [], Execute ''CREATE TABLE a (x int);'' [],
           Execute ''COMMIT;'' [], Execute ''BEGIN;'' [],
           Execute insert_sql [''001_init.sql''], Execute ''COMMIT;'' [],
           Execute ''BEGIN;'' [], Execute ''CREATE TABLE b (x int);'' [],
           Execute ''ROLLBACK;'' []],
        logged =
          [Applying ''001_init.sql'', AppliedSuccessfully ''001_init.sql'',
           Applying ''002_b.sql'', FailedToApply ''002_b.sql'' ''boom'',
           RolledBack ''002_b.sql'', StoppingMigrations]\<rparr>)"
    by code_simp
  from halt_on_failure [OF a b c', of "[third_file]"]
  have e: "\<exists>w'. process_migration_files ?db ([first_file] @ second_file # [third_file]) {}
        example_world = (Some (SystemExit 1), w') \<and>
      sublist (record_calls (name first_file)) (calls w')"
    by auto
  have c2: "fst (apply_migration ?db second_file (logger (Applying (name second_file)) ?w1)) =
      Some (DatabaseError ''boom'')"
    by code_simp
  from a b c2 d e show ?thesis
    by blast
qed

subsection \<open>The order of the files\<close>

lemma find_by_name:
  "filename \<in> name ` set fs \<Longrightarrow>
     \<exists>f. find (\<lambda>f. name f = filename) fs = Some f \<and> f \<in> set fs \<and> name f = filename"
  by (induction fs) auto

lemma extends_refl: "extends fs st st []"
  by (simp add: extends_def)

lemma extends_trans:
  "extends fs st st1 new1 \<Longrightarrow> extends fs st1 st2 new2 \<Longrightarrow> extends fs st st2 (new1 @ new2)"
  by (auto simp: extends_def)

lemma visit_extends:
  "filename \<in> name ` set fs \<Longrightarrow>
     \<exists>st' new. visit order fs deps filename st = Inr st' \<and> extends fs st st' new \<and>
       filename \<in> visited st'"
  "\<exists>st' new. visit_deps order fs deps tables st = Inr st' \<and> extends fs st st' new"
proof (induction order fs deps filename st and order fs deps tables st
    rule: visit_visit_deps.induct)
  case (1 order fs deps filename st)
  show ?case
  proof (cases "filename \<in> visited st")
    case True
    then show ?thesis
      by (auto intro: extends_refl)
  next
    case False
    let ?st1 = "st\<lparr>visited := insert filename (visited st)\<rparr>"
    from "1.IH" [OF False] obtain st2 new where
      vd: "visit_deps order fs deps
             (case deps filename of None \<Rightarrow> [] | Some tables \<Rightarrow> order tables) ?st1 = Inr st2"
      and ext: "extends fs ?st1 st2 new"
      by blast
    from find_by_name [OF "1.prems"] obtain f where
      f: "find (\<lambda>f. name f = filename) fs = Some f" "f \<in> set fs" "name f = filename"
      by blast
    let ?st' = "st2\<lparr>result := result st2 @ [f]\<rparr>"
    from False vd f have "visit order fs deps filename st = Inr ?st'"
      by simp
    moreover from ext f False have "extends fs st ?st' (new @ [f])"
      by (auto simp: extends_def)
    moreover from ext have "filename \<in> visited ?st'"
      by (auto simp: extends_def)
    ultimately show ?thesis
      by blast
  qed
next
  case (2 order fs deps st)
  show ?case
    by (auto intro: extends_refl)
next
  case (3 order fs deps dep_table tables st)
  show ?case
  proof (cases "find (\<lambda>f. prefix dep_table (name f)) fs")
    case None
    with "3.IH"(1) [OF None] show ?thesis
      by simp
  next
    case (Some dep_file)
    then have "name dep_file \<in> name ` set fs"
      by (auto dest: find_Some_member)
    from "3.IH"(2) [OF Some this] obtain st1 new1 where
      v: "visit order fs deps (name dep_file) st = Inr st1" and e1: "extends fs st st1 new1"
      by blast
    from "3.IH"(3) [OF Some v] obtain st2 new2 where
      vd: "visit_deps order fs deps tables st1 = Inr st2" and e2: "extends fs st1 st2 new2"
      by blast
    from Some v vd have "visit_deps order fs deps (dep_table # tables) st = Inr st2"
      by simp
    with extends_trans [OF e1 e2] show ?thesis
      by blast
  qed
qed

lemma visit_all_extends:
  "set xs \<subseteq> set fs \<Longrightarrow>
     \<exists>st' new. visit_all order fs deps xs st = Inr st' \<and> extends fs st st' new \<and>
       name ` set xs \<subseteq> visited st'"
proof (induction xs arbitrary: st)
  case Nil
  show ?case
    by (auto intro: extends_refl)
next
  case (Cons x xs)
  then have "name x \<in> name ` set fs"
    by auto
  from visit_extends(1) [OF this] obtain st1 new1 where
    v: "visit order fs deps (name x) st = Inr st1" and e1: "extends fs st st1 new1"
    and x: "name x \<in> visited st1"
    by blast
  from Cons.prems have "set xs \<subseteq> set fs"
    by simp
  from Cons.IH [OF this] obtain st2 new2 where
    va: "visit_all order fs deps xs st1 = Inr st2" and e2: "extends fs st1 st2 new2"
    and xs: "name ` set xs \<subseteq> visited st2"
    by blast
  from e2 x have "name x \<in> visited st2"
    by (auto simp: extends_def)
  with v va xs extends_trans [OF e1 e2] show ?case
    by auto
qed


lemma topological_sort_result:
  "\<exists>sorted_files. topological_sort order files = Inr sorted_files \<and>
     set sorted_files \<subseteq> set files \<and> distinct (map name sorted_files) \<and>
     name ` set sorted_files = name ` set files"
proof -
  let ?fs = "sort_key name files"
  let ?deps = "build_dependencies ?fs Map.empty"
  let ?st0 = "\<lparr>visited = {}, result = []\<rparr>"
  have "set ?fs \<subseteq> set ?fs"
    by simp
  from visit_all_extends [OF this] obtain st' new where
    va: "visit_all order ?fs ?deps ?fs ?st0 = Inr st'" and e: "extends ?fs ?st0 st' new"
    and cover: "name ` set ?fs \<subseteq> visited st'"
    by blast
  from va have "topological_sort order files = Inr (result st')"
    by (simp add: topological_sort_def)
  moreover from e have "result st' = new" "visited st' = name ` set new" "set new \<subseteq> set files"
    "distinct (map name new)"
    by (auto simp: extends_def)
  moreover from this cover have "name ` set new = name ` set files"
    by auto
  ultimately show ?thesis
    by auto
qed




lemma build_dependencies_other:
  "filename \<notin> name ` set fs \<Longrightarrow> build_dependencies fs m filename = m filename"
  by (induction fs arbitrary: m) auto

lemma build_dependencies_distinct:
  "distinct (map name fs) \<Longrightarrow> f \<in> set fs \<Longrightarrow>
     build_dependencies fs m (name f) = Some (get_table_references (content f))"
  by (induction fs arbitrary: m) (auto simp: build_dependencies_other)

lemma find_distinct_name:
  "distinct (map name fs) \<Longrightarrow> f \<in> set fs \<Longrightarrow> find (\<lambda>g. name g = name f) fs = Some f"
  by (induction fs) (auto simp: rev_image_eqI)

lemma visit_no_references:
  assumes "distinct (map name fs)" and "f \<in> set fs" and "name f \<notin> visited st"
    and "deps (name f) = Some {}" and "order {} = []"
  shows "visit order fs deps (name f) st =
    Inr (st\<lparr>visited := insert (name f) (visited st), result := result st @ [f]\<rparr>)"
  using assms by (simp add: find_distinct_name)

lemma visit_all_no_references:
  assumes "distinct (map name fs)" and "order {} = []"
    and "\<forall>f \<in> set fs. deps (name f) = Some {}"
  shows "set xs \<subseteq> set fs \<Longrightarrow> distinct (map name xs) \<Longrightarrow> name ` set xs \<inter> visited st = {} \<Longrightarrow>
    visit_all order fs deps xs st =
      Inr (st\<lparr>visited := visited st \<union> name ` set xs, result := result st @ xs\<rparr>)"
proof (induction xs arbitrary: st)
  case Nil
  show ?case
    by simp
next
  case (Cons x xs)
  let ?st1 = "st\<lparr>visited := insert (name x) (visited st), result := result st @ [x]\<rparr>"
  from Cons.prems assms have v: "visit order fs deps (name x) st = Inr ?st1"
    by (intro visit_no_references) auto
  from Cons.prems have "set xs \<subseteq> set fs" "distinct (map name xs)"
    "name ` set xs \<inter> visited ?st1 = {}"
    by auto
  from Cons.IH [OF this] v show ?case
    by simp
qed

text \<open>
  C8. When no file of the list yields a referenced table (and the filenames are distinct),
  \<^verbatim>\<open>topological_sort\<close> returns the files sorted by filename. The loop over the empty set
  of references yields nothing.
\<close>

theorem lexicographic_fallback:
  assumes "distinct (map name files)"
    and "\<forall>f \<in> set files. get_table_references (content f) = {}"
    and "order {} = []"
  shows "topological_sort order files = Inr (sort_key name files)"
proof -
  let ?fs = "sort_key name files"
  let ?deps = "build_dependencies ?fs Map.empty"
  from assms(1) have d: "distinct (map name ?fs)"
    by (metis distinct_map distinct_sort set_sort inj_on_cong)
  have deps: "\<forall>f \<in> set ?fs. ?deps (name f) = Some {}"
    using build_dependencies_distinct [OF d] assms(2) by simp
  let ?st0 = "\<lparr>visited = {}, result = []\<rparr>"
  have "visit_all order ?fs ?deps ?fs ?st0 =
      Inr (?st0\<lparr>visited := visited ?st0 \<union> name ` set ?fs, result := result ?st0 @ ?fs\<rparr>)"
    using d assms(3) deps
    by (intro visit_all_no_references [where fs = "?fs"]) simp_all
  then show ?thesis
    by (simp add: topological_sort_def)
qed

theorem lexicographic_fallback_witness:
  "distinct (map name [second_file, third_file, first_file]) \<and>
   get_table_references (content first_file) = {} \<and>
   get_table_references (content second_file) = {} \<and>
   get_table_references (content third_file) = {} \<and>
   sorted_list_of_set ({} :: string set) = [] \<and>
   topological_sort sorted_list_of_set [second_file, third_file, first_file] =
     Inr [first_file, second_file, third_file]"
proof -
  have d: "distinct (map name [second_file, third_file, first_file])"
    by code_simp
  have r1: "get_table_references (content first_file) = {}"
    and r2: "get_table_references (content second_file) = {}"
    and r3: "get_table_references (content third_file) = {}"
    by code_simp+
  then have r: "\<forall>f \<in> set [second_file, third_file, first_file]. get_table_references (content f) = {}"
    by simp
  have e: "sorted_list_of_set ({} :: string set) = []"
    by simp
  have s: "sort_key name [second_file, third_file, first_file] =
      [first_file, second_file, third_file]"
    by code_simp
  from lexicographic_fallback [of "[second_file, third_file, first_file]" sorted_list_of_set]
    d r e s
  have "topological_sort sorted_list_of_set [second_file, third_file, first_file] =
     Inr [first_file, second_file, third_file]"
    by simp
  with d r1 r2 r3 e show ?thesis
    by blast
qed

lemma finite_references_of_lines: "finite refs \<Longrightarrow> finite (references_of_lines ls refs)"
  by (induction ls arbitrary: refs) (auto split: option.splits)

lemma finite_get_table_references: "finite (get_table_references sql)"
  by (simp add: get_table_references_def finite_references_of_lines)

lemma precedesI:
  assumes "xs = as @ bs" and "x \<in> set as" and "y \<in> set bs" and "y \<notin> set as"
  shows "precedes x y xs"
proof -
  from assms(4) have "takeWhile (\<lambda>z. z \<noteq> y) (as @ bs) = as @ takeWhile (\<lambda>z. z \<noteq> y) bs"
    by (intro takeWhile_append2) auto
  with assms show ?thesis
    by (simp add: precedes_def)
qed

lemma resolved_dependencies_iff:
  "g \<in> resolved_dependencies fs f \<longleftrightarrow>
     (\<exists>t \<in> get_table_references (content f). find (\<lambda>h. prefix t (name h)) fs = Some g)"
  by (auto simp: resolved_dependencies_def resolve_table_def)

lemma dependency_edgeI:
  "f \<in> set fs \<Longrightarrow> g \<in> resolved_dependencies fs f \<Longrightarrow> (name f, name g) \<in> dependency_edges fs"
  by (auto simp: dependency_edges_def)

lemma extends_grey: "extends fs st st' new \<Longrightarrow> grey st' = grey st"
  by (auto simp: extends_def grey_def)

lemma extends_result_subset:
  "extends fs st st' new \<Longrightarrow> set (result st) \<subseteq> set fs \<Longrightarrow> set (result st') \<subseteq> set fs"
  by (auto simp: extends_def)

lemma extends_visited_mono: "extends fs st st' new \<Longrightarrow> visited st \<subseteq> visited st'"
  by (auto simp: extends_def)

lemma visit_Inr_extends:
  "filename \<in> name ` set fs \<Longrightarrow> visit order fs deps filename st = Inr st' \<Longrightarrow>
     (\<exists>new. extends fs st st' new) \<and> filename \<in> visited st'"
  using visit_extends(1) [of filename fs order deps st] by auto

lemma visit_deps_Inr_extends:
  "visit_deps order fs deps tables st = Inr st' \<Longrightarrow> \<exists>new. extends fs st st' new"
  using visit_extends(2) [of order fs deps tables st] by auto

lemma visit_deps_visits:
  "visit_deps order fs deps tables st = Inr st' \<Longrightarrow> t \<in> set tables \<Longrightarrow>
     find (\<lambda>h. prefix t (name h)) fs = Some g \<Longrightarrow> name g \<in> visited st'"
proof (induction tables arbitrary: st)
  case Nil
  then show ?case
    by simp
next
  case (Cons dep_table tables)
  show ?case
  proof (cases "find (\<lambda>f. prefix dep_table (name f)) fs")
    case None
    with Cons.prems have "visit_deps order fs deps tables st = Inr st'" "t \<in> set tables"
      by auto
    from Cons.IH [OF this Cons.prems(3)] show ?thesis .
  next
    case (Some dep_file)
    then have mem: "name dep_file \<in> name ` set fs"
      by (auto dest: find_Some_member)
    from Some Cons.prems(1) obtain st1 where
      v: "visit order fs deps (name dep_file) st = Inr st1" and
      vd: "visit_deps order fs deps tables st1 = Inr st'"
      by (auto split: sum.splits)
    from visit_Inr_extends [OF mem v] have in1: "name dep_file \<in> visited st1"
      by simp
    from visit_deps_Inr_extends [OF vd] have mono: "visited st1 \<subseteq> visited st'"
      by (auto dest: extends_visited_mono)
    show ?thesis
    proof (cases "t = dep_table")
      case True
      with Some Cons.prems(3) have "g = dep_file"
        by simp
      with in1 mono show ?thesis
        by auto
    next
      case False
      with Cons.prems(2) have "t \<in> set tables"
        by simp
      from Cons.IH [OF vd this Cons.prems(3)] show ?thesis .
    qed
  qed
qed

lemma dependencies_first_snoc:
  assumes "dependencies_first fs res"
    and "\<forall>g \<in> resolved_dependencies fs f.
           (name g, name f) \<notin> (dependency_edges fs)\<^sup>+ \<longrightarrow> g \<in> set res"
  shows "dependencies_first fs (res @ [f])"
  unfolding dependencies_first_def
proof (intro allI impI ballI)
  fix pre h post g
  assume eq: "res @ [f] = pre @ h # post" and g: "g \<in> resolved_dependencies fs h"
    and nc: "(name g, name h) \<notin> (dependency_edges fs)\<^sup>+"
  show "g \<in> set pre"
  proof (cases post rule: rev_cases)
    case Nil
    with eq have "pre = res" "h = f"
      by simp_all
    with assms(2) g nc show ?thesis
      by simp
  next
    case (snoc post' z)
    with eq have "res = pre @ h # post'"
      by simp
    with assms(1) g nc show ?thesis
      unfolding dependencies_first_def by blast
  qed
qed

lemma member_by_name:
  "distinct (map name fs) \<Longrightarrow> g \<in> set fs \<Longrightarrow> set res \<subseteq> set fs \<Longrightarrow>
     name g \<in> name ` set res \<Longrightarrow> g \<in> set res"
  by (auto simp: distinct_map dest: inj_onD)

lemma setting_tables:
  assumes "dfs_setting order fs deps" and "f \<in> set fs"
  shows "set (case deps (name f) of None \<Rightarrow> [] | Some tables \<Rightarrow> order tables) =
    get_table_references (content f)"
  using assms by (simp add: dfs_setting_def enumerates_def finite_get_table_references)

lemma visit_dependencies_first:
  "dfs_setting order fs deps \<Longrightarrow> filename \<in> name ` set fs \<Longrightarrow>
     set (result st) \<subseteq> set fs \<Longrightarrow> dependencies_first fs (result st) \<Longrightarrow>
     \<forall>a \<in> grey st. (a, filename) \<in> (dependency_edges fs)\<^sup>* \<Longrightarrow>
     visit order fs deps filename st = Inr st' \<Longrightarrow> dependencies_first fs (result st')"
  "dfs_setting order fs deps \<Longrightarrow>
     set (result st) \<subseteq> set fs \<Longrightarrow> dependencies_first fs (result st) \<Longrightarrow>
     \<forall>t \<in> set tables. \<forall>g. find (\<lambda>h. prefix t (name h)) fs = Some g \<longrightarrow>
        (\<forall>a \<in> grey st. (a, name g) \<in> (dependency_edges fs)\<^sup>*) \<Longrightarrow>
     visit_deps order fs deps tables st = Inr st' \<Longrightarrow> dependencies_first fs (result st')"
proof (induction order fs deps filename st and order fs deps tables st
    arbitrary: st' and st' rule: visit_visit_deps.induct)
  case (1 order fs deps filename st)
  show ?case
  proof (cases "filename \<in> visited st")
    case True
    with "1.prems" show ?thesis
      by simp
  next
    case False
    let ?st1 = "st\<lparr>visited := insert filename (visited st)\<rparr>"
    let ?ts = "case deps filename of None \<Rightarrow> [] | Some tables \<Rightarrow> order tables"
    note setting = "1.prems"(1)
    then have d: "distinct (map name fs)"
      by (simp add: dfs_setting_def)
    from find_by_name [OF "1.prems"(2)] obtain f where
      f: "find (\<lambda>f. name f = filename) fs = Some f" "f \<in> set fs" "name f = filename"
      by blast
    from False "1.prems"(6) f obtain st2 where
      vd: "visit_deps order fs deps ?ts ?st1 = Inr st2" and
      st': "st' = st2\<lparr>result := result st2 @ [f]\<rparr>"
      by (auto split: sum.splits)
    from setting_tables [OF setting f(2)] f(3) have ts: "set ?ts = get_table_references (content f)"
      by simp
    have g1: "grey ?st1 \<subseteq> insert filename (grey st)"
      by (auto simp: grey_def)
    have edge: "(filename, name g) \<in> dependency_edges fs"
      if "t \<in> set ?ts" "find (\<lambda>h. prefix t (name h)) fs = Some g" for t g
    proof -
      from that ts have "g \<in> resolved_dependencies fs f"
        by (auto simp: resolved_dependencies_iff)
      from dependency_edgeI [OF f(2) this] f(3) show ?thesis
        by simp
    qed
    have reach: "\<forall>t \<in> set ?ts. \<forall>g. find (\<lambda>h. prefix t (name h)) fs = Some g \<longrightarrow>
        (\<forall>a \<in> grey ?st1. (a, name g) \<in> (dependency_edges fs)\<^sup>*)"
    proof (intro ballI allI impI)
      fix t g a
      assume t: "t \<in> set ?ts" "find (\<lambda>h. prefix t (name h)) fs = Some g" and a: "a \<in> grey ?st1"
      from edge [OF t] have e: "(filename, name g) \<in> dependency_edges fs" .
      from a g1 have "a = filename \<or> a \<in> grey st"
        by auto
      then show "(a, name g) \<in> (dependency_edges fs)\<^sup>*"
      proof
        assume "a = filename"
        with e show ?thesis
          by auto
      next
        assume "a \<in> grey st"
        with "1.prems"(5) have "(a, filename) \<in> (dependency_edges fs)\<^sup>*"
          by simp
        from this e show ?thesis
          by (rule rtrancl_into_rtrancl)
      qed
    qed
    have df2: "dependencies_first fs (result st2)"
      using "1.IH" [OF False setting _ _ reach vd] "1.prems"(3,4) by simp
    from visit_deps_Inr_extends [OF vd] obtain new where ext: "extends fs ?st1 st2 new"
      by blast
    from extends_grey [OF ext] g1 have g2: "grey st2 \<subseteq> insert filename (grey st)"
      by simp
    from extends_result_subset [OF ext] "1.prems"(3) have sub2: "set (result st2) \<subseteq> set fs"
      by simp
    have "\<forall>g \<in> resolved_dependencies fs f.
        (name g, name f) \<notin> (dependency_edges fs)\<^sup>+ \<longrightarrow> g \<in> set (result st2)"
    proof (intro ballI impI)
      fix g
      assume g: "g \<in> resolved_dependencies fs f"
        and nc: "(name g, name f) \<notin> (dependency_edges fs)\<^sup>+"
      from g ts obtain t where t: "t \<in> set ?ts" "find (\<lambda>h. prefix t (name h)) fs = Some g"
        by (auto simp: resolved_dependencies_iff)
      from t(2) have gfs: "g \<in> set fs"
        by (rule find_Some_member)
      from visit_deps_visits [OF vd t] have vis: "name g \<in> visited st2" .
      show "g \<in> set (result st2)"
      proof (rule ccontr)
        assume "g \<notin> set (result st2)"
        with member_by_name [OF d gfs sub2] have "name g \<notin> name ` set (result st2)"
          by blast
        with vis have "name g \<in> grey st2"
          by (simp add: grey_def)
        with g2 have "name g = filename \<or> name g \<in> grey st"
          by auto
        then have "(name g, filename) \<in> (dependency_edges fs)\<^sup>+"
        proof
          assume "name g = filename"
          with edge [OF t] show ?thesis
            by auto
        next
          assume "name g \<in> grey st"
          with "1.prems"(5) have "(name g, filename) \<in> (dependency_edges fs)\<^sup>*"
            by simp
          moreover from edge [OF t] have "(filename, name g) \<in> dependency_edges fs" .
          ultimately show ?thesis
            by (metis rtranclD r_into_trancl')
        qed
        with nc f(3) show False
          by simp
      qed
    qed
    from dependencies_first_snoc [OF df2 this] st' show ?thesis
      by simp
  qed
next
  case (2 order fs deps st)
  then show ?case
    by simp
next
  case (3 order fs deps dep_table tables st)
  show ?case
  proof (cases "find (\<lambda>f. prefix dep_table (name f)) fs")
    case None
    with "3.prems"(5) have vd: "visit_deps order fs deps tables st = Inr st'"
      by simp
    from "3.prems"(4) have "\<forall>t \<in> set tables. \<forall>g. find (\<lambda>h. prefix t (name h)) fs = Some g \<longrightarrow>
        (\<forall>a \<in> grey st. (a, name g) \<in> (dependency_edges fs)\<^sup>*)"
      by simp
    from "3.IH"(1) [OF None "3.prems"(1,2,3) this vd] show ?thesis .
  next
    case (Some dep_file)
    then have mem: "name dep_file \<in> name ` set fs"
      by (auto dest: find_Some_member)
    from Some "3.prems"(5) obtain st1 where
      v: "visit order fs deps (name dep_file) st = Inr st1" and
      vd: "visit_deps order fs deps tables st1 = Inr st'"
      by (auto split: sum.splits)
    from "3.prems"(4) Some have r: "\<forall>a \<in> grey st. (a, name dep_file) \<in> (dependency_edges fs)\<^sup>*"
      by simp
    from "3.IH"(2) [OF Some "3.prems"(1) mem "3.prems"(2,3) r v]
    have df1: "dependencies_first fs (result st1)" .
    from visit_Inr_extends [OF mem v] obtain new where ext: "extends fs st st1 new"
      by blast
    from extends_result_subset [OF ext "3.prems"(2)] have sub1: "set (result st1) \<subseteq> set fs" .
    from "3.prems"(4) extends_grey [OF ext]
    have "\<forall>t \<in> set tables. \<forall>g. find (\<lambda>h. prefix t (name h)) fs = Some g \<longrightarrow>
        (\<forall>a \<in> grey st1. (a, name g) \<in> (dependency_edges fs)\<^sup>*)"
      by simp
    from "3.IH"(3) [OF Some v "3.prems"(1) sub1 df1 this vd] show ?thesis .
  qed
qed

lemma visit_all_dependencies_first:
  "dfs_setting order fs deps \<Longrightarrow> set xs \<subseteq> set fs \<Longrightarrow> set (result st) \<subseteq> set fs \<Longrightarrow>
     dependencies_first fs (result st) \<Longrightarrow> grey st = {} \<Longrightarrow>
     visit_all order fs deps xs st = Inr st' \<Longrightarrow> dependencies_first fs (result st')"
proof (induction xs arbitrary: st)
  case Nil
  then show ?case
    by simp
next
  case (Cons x xs)
  from Cons.prems(2) have mem: "name x \<in> name ` set fs"
    by auto
  from Cons.prems(6) obtain st1 where
    v: "visit order fs deps (name x) st = Inr st1" and
    va: "visit_all order fs deps xs st1 = Inr st'"
    by (auto split: sum.splits)
  from Cons.prems(5) have "\<forall>a \<in> grey st. (a, name x) \<in> (dependency_edges fs)\<^sup>*"
    by simp
  from visit_dependencies_first(1) [OF Cons.prems(1) mem Cons.prems(3,4) this v]
  have df1: "dependencies_first fs (result st1)" .
  from visit_Inr_extends [OF mem v] obtain new where ext: "extends fs st st1 new"
    by blast
  from extends_result_subset [OF ext Cons.prems(3)] have sub1: "set (result st1) \<subseteq> set fs" .
  from extends_grey [OF ext] Cons.prems(5) have g1: "grey st1 = {}"
    by simp
  from Cons.prems(2) have "set xs \<subseteq> set fs"
    by simp
  from Cons.IH [OF Cons.prems(1) this sub1 df1 g1 va] show ?case .
qed

lemma visit_reaches:
  "dfs_setting order fs deps \<Longrightarrow> filename \<in> name ` set fs \<Longrightarrow>
     visit order fs deps filename st = Inr st' \<Longrightarrow>
     visited st' \<subseteq> visited st \<union> insert filename (Range (dependency_edges fs))"
  "dfs_setting order fs deps \<Longrightarrow>
     \<forall>t \<in> set tables. \<forall>g. find (\<lambda>h. prefix t (name h)) fs = Some g \<longrightarrow>
        name g \<in> Range (dependency_edges fs) \<Longrightarrow>
     visit_deps order fs deps tables st = Inr st' \<Longrightarrow>
     visited st' \<subseteq> visited st \<union> Range (dependency_edges fs)"
proof (induction order fs deps filename st and order fs deps tables st
    arbitrary: st' and st' rule: visit_visit_deps.induct)
  case (1 order fs deps filename st)
  show ?case
  proof (cases "filename \<in> visited st")
    case True
    with "1.prems" show ?thesis
      by auto
  next
    case False
    let ?st1 = "st\<lparr>visited := insert filename (visited st)\<rparr>"
    let ?ts = "case deps filename of None \<Rightarrow> [] | Some tables \<Rightarrow> order tables"
    from find_by_name [OF "1.prems"(2)] obtain f where
      f: "find (\<lambda>f. name f = filename) fs = Some f" "f \<in> set fs" "name f = filename"
      by blast
    from False "1.prems"(3) f obtain st2 where
      vd: "visit_deps order fs deps ?ts ?st1 = Inr st2" and
      st': "st' = st2\<lparr>result := result st2 @ [f]\<rparr>"
      by (auto split: sum.splits)
    from setting_tables [OF "1.prems"(1) f(2)] f(3)
    have ts: "set ?ts = get_table_references (content f)"
      by simp
    have "\<forall>t \<in> set ?ts. \<forall>g. find (\<lambda>h. prefix t (name h)) fs = Some g \<longrightarrow>
        name g \<in> Range (dependency_edges fs)"
    proof (intro ballI allI impI)
      fix t g
      assume "t \<in> set ?ts" "find (\<lambda>h. prefix t (name h)) fs = Some g"
      with ts have "g \<in> resolved_dependencies fs f"
        by (auto simp: resolved_dependencies_iff)
      from dependency_edgeI [OF f(2) this] show "name g \<in> Range (dependency_edges fs)"
        by auto
    qed
    from "1.IH" [OF False "1.prems"(1) this vd] st' show ?thesis
      by auto
  qed
next
  case (2 order fs deps st)
  then show ?case
    by simp
next
  case (3 order fs deps dep_table tables st)
  show ?case
  proof (cases "find (\<lambda>f. prefix dep_table (name f)) fs")
    case None
    with "3.prems"(3) have vd: "visit_deps order fs deps tables st = Inr st'"
      by simp
    from "3.prems"(2) have "\<forall>t \<in> set tables. \<forall>g. find (\<lambda>h. prefix t (name h)) fs = Some g \<longrightarrow>
        name g \<in> Range (dependency_edges fs)"
      by simp
    from "3.IH"(1) [OF None "3.prems"(1) this vd] show ?thesis .
  next
    case (Some dep_file)
    then have mem: "name dep_file \<in> name ` set fs"
      by (auto dest: find_Some_member)
    from Some "3.prems"(3) obtain st1 where
      v: "visit order fs deps (name dep_file) st = Inr st1" and
      vd: "visit_deps order fs deps tables st1 = Inr st'"
      by (auto split: sum.splits)
    from "3.prems"(2) Some have r: "name dep_file \<in> Range (dependency_edges fs)"
      by simp
    from "3.IH"(2) [OF Some "3.prems"(1) mem v] r
    have 1: "visited st1 \<subseteq> visited st \<union> Range (dependency_edges fs)"
      by auto
    from "3.prems"(2) have "\<forall>t \<in> set tables. \<forall>g. find (\<lambda>h. prefix t (name h)) fs = Some g \<longrightarrow>
        name g \<in> Range (dependency_edges fs)"
      by simp
    from "3.IH"(3) [OF Some v "3.prems"(1) this vd] 1 show ?thesis
      by auto
  qed
qed

lemma visit_all_reaches:
  "dfs_setting order fs deps \<Longrightarrow> set xs \<subseteq> set fs \<Longrightarrow>
     visit_all order fs deps xs st = Inr st' \<Longrightarrow>
     visited st' \<subseteq> visited st \<union> name ` set xs \<union> Range (dependency_edges fs)"
proof (induction xs arbitrary: st)
  case Nil
  then show ?case
    by simp
next
  case (Cons x xs)
  from Cons.prems(2) have mem: "name x \<in> name ` set fs"
    by auto
  from Cons.prems(3) obtain st1 where
    v: "visit order fs deps (name x) st = Inr st1" and
    va: "visit_all order fs deps xs st1 = Inr st'"
    by (auto split: sum.splits)
  from Cons.prems(2) have "set xs \<subseteq> set fs"
    by simp
  from Cons.IH [OF Cons.prems(1) this va] visit_reaches(1) [OF Cons.prems(1) mem v]
  show ?case
    by auto
qed

lemma visit_all_append:
  "visit_all order fs deps (xs @ ys) st =
     (case visit_all order fs deps xs st of
        Inl e \<Rightarrow> Inl e
      | Inr st1 \<Rightarrow> visit_all order fs deps ys st1)"
  by (induction xs arbitrary: st) (auto split: sum.splits)

text \<open>A file that is nobody's dependency is appended by its own turn of the top loop,
  after everything the earlier turns appended.\<close>

lemma visit_all_unreferenced_last:
  assumes setting: "dfs_setting order fs deps"
    and fs: "fs = xs @ g # ys"
    and unref: "name g \<notin> Range (dependency_edges fs)"
    and run: "visit_all order fs deps fs \<lparr>visited = {}, result = []\<rparr> = Inr st'"
  shows "\<forall>x \<in> set xs. precedes x g (result st')"
proof -
  let ?st0 = "\<lparr>visited = {}, result = []\<rparr>"
  from setting have d: "distinct (map name fs)"
    by (simp add: dfs_setting_def)
  have subx: "set xs \<subseteq> set fs" and suby: "set ys \<subseteq> set fs" and gfs: "g \<in> set fs"
    using fs by auto
  from visit_all_extends [OF subx, of order deps ?st0] obtain s1 new1 where
    va1: "visit_all order fs deps xs ?st0 = Inr s1" and e1: "extends fs ?st0 s1 new1"
    and c1: "name ` set xs \<subseteq> visited s1"
    by blast
  from gfs have mem: "name g \<in> name ` set fs"
    by simp
  from visit_extends(1) [OF mem, of order deps s1] obtain s2 new2 where
    v2: "visit order fs deps (name g) s1 = Inr s2" and e2: "extends fs s1 s2 new2"
    and c2: "name g \<in> visited s2"
    by blast
  from visit_all_extends [OF suby, of order deps s2] obtain s3 new3 where
    va3: "visit_all order fs deps ys s2 = Inr s3" and e3: "extends fs s2 s3 new3"
    by blast
  from fs run have "visit_all order fs deps (xs @ g # ys) ?st0 = Inr st'"
    by metis
  with va1 v2 va3 have st': "st' = s3"
    by (simp add: visit_all_append del: visit.simps)
  from e1 have r1: "result s1 = new1" "visited s1 = name ` set new1" "set new1 \<subseteq> set fs"
    by (auto simp: extends_def)
  from visit_all_reaches [OF setting subx va1]
  have "visited s1 \<subseteq> name ` set xs \<union> Range (dependency_edges fs)"
    by simp
  moreover from d fs have "name g \<notin> name ` set xs"
    by auto
  ultimately have g1: "name g \<notin> visited s1"
    using unref by auto
  with r1 have gn1: "g \<notin> set new1"
    by auto
  from e2 c2 g1 have "name g \<in> name ` set new2"
    by (auto simp: extends_def)
  moreover from e2 have "set new2 \<subseteq> set fs"
    by (simp add: extends_def)
  ultimately have gn2: "g \<in> set new2"
    using member_by_name [OF d gfs] by blast
  from e2 e3 r1 have res: "result s3 = new1 @ (new2 @ new3)"
    by (simp add: extends_def)
  show ?thesis
  proof
    fix x
    assume x: "x \<in> set xs"
    with c1 r1 have "name x \<in> name ` set new1"
      by auto
    with member_by_name [OF d _ r1(3)] x subx have "x \<in> set new1"
      by blast
    from precedesI [OF res this _ gn1] gn2 st' show "precedes x g (result st')"
      by simp
  qed
qed

lemma distinct_sort_key_name:
  "distinct (map name files) \<Longrightarrow> distinct (map name (sort_key name files))"
  by (metis distinct_map distinct_sort set_sort inj_on_cong)

lemma dfs_setting_sorted:
  assumes "distinct (map name files)" and "enumerates order"
  shows "dfs_setting order (sort_key name files)
    (build_dependencies (sort_key name files) Map.empty)"
  using assms build_dependencies_distinct [OF distinct_sort_key_name [OF assms(1)]]
  by (simp add: dfs_setting_def distinct_sort_key_name)

lemma dependencies_first_Nil: "dependencies_first fs []"
  by (simp add: dependencies_first_def)

text \<open>
  C1. The order of dependencies. That every resolvable dependency comes before its
  dependents, and that files without dependencies keep their lexicographic order, does not
  hold for every input: on a cycle two files that depend on each other cannot both come
  first, and a file without dependencies that another file depends on is pulled forward,
  in front of files that sort before it (the example after the theorem). What
  holds, for distinct filenames and every enumerating iteration order: every resolved
  dependency of a file stands before the file, unless the dependency depends on the file
  in turn; a file that is nobody's resolved dependency stands behind every file with a
  smaller filename, so such files keep their lexicographic order among themselves. For
  \<^verbatim>\<open>a_table.sql\<close> with the line FOREIGN KEY REFERENCES b and \<^verbatim>\<open>b_table.sql\<close> this puts
  \<^verbatim>\<open>b_table.sql\<close> first.
\<close>

theorem dependency_order:
  assumes "distinct (map name files)" and "enumerates order"
  shows "\<exists>sorted_files. topological_sort order files = Inr sorted_files \<and>
    (\<forall>f \<in> set files. \<forall>g \<in> resolved_dependencies (sort_key name files) f.
       (name g, name f) \<notin> (dependency_edges (sort_key name files))\<^sup>+ \<longrightarrow>
       precedes g f sorted_files) \<and>
    (\<forall>f \<in> set files. \<forall>g \<in> set files.
       name f < name g \<and> name g \<notin> Range (dependency_edges (sort_key name files)) \<longrightarrow>
       precedes f g sorted_files)"
proof -
  let ?fs = "sort_key name files"
  let ?deps = "build_dependencies ?fs Map.empty"
  let ?st0 = "\<lparr>visited = {}, result = []\<rparr>"
  note setting = dfs_setting_sorted [OF assms]
  from assms(1) have d: "distinct (map name ?fs)"
    by (rule distinct_sort_key_name)
  have subs: "set ?fs \<subseteq> set ?fs"
    by simp
  from visit_all_extends [OF subs, of order ?deps ?st0] obtain st' new where
    run: "visit_all order ?fs ?deps ?fs ?st0 = Inr st'" and e: "extends ?fs ?st0 st' new"
    and cover: "name ` set ?fs \<subseteq> visited st'"
    by blast
  from run have ts: "topological_sort order files = Inr (result st')"
    by (simp add: topological_sort_def)
  from e have res: "set (result st') \<subseteq> set ?fs" "distinct (map name (result st'))"
    "visited st' = name ` set (result st')"
    by (auto simp: extends_def)
  then have dres: "distinct (result st')"
    by (simp add: distinct_map)
  have all_in: "f \<in> set (result st')" if "f \<in> set files" for f
  proof -
    from that cover res(3) have "name f \<in> name ` set (result st')"
      by auto
    with member_by_name [OF d _ res(1)] that show ?thesis
      by simp
  qed
  have df: "dependencies_first ?fs (result st')"
    by (rule visit_all_dependencies_first [OF setting subs _ _ _ run])
      (simp_all add: dependencies_first_Nil grey_def)
  have a: "\<forall>f \<in> set files. \<forall>g \<in> resolved_dependencies ?fs f.
       (name g, name f) \<notin> (dependency_edges ?fs)\<^sup>+ \<longrightarrow> precedes g f (result st')"
  proof (intro ballI impI)
    fix f g
    assume f: "f \<in> set files" and g: "g \<in> resolved_dependencies ?fs f"
      and nc: "(name g, name f) \<notin> (dependency_edges ?fs)\<^sup>+"
    from all_in [OF f] obtain pre post where sp: "result st' = pre @ f # post"
      by (auto dest: split_list)
    with df g nc have "g \<in> set pre"
      unfolding dependencies_first_def by blast
    moreover from dres sp have "f \<notin> set pre"
      by auto
    ultimately show "precedes g f (result st')"
      using sp by (intro precedesI [of _ pre "f # post"]) simp_all
  qed
  have b: "\<forall>f \<in> set files. \<forall>g \<in> set files.
       name f < name g \<and> name g \<notin> Range (dependency_edges ?fs) \<longrightarrow>
       precedes f g (result st')"
  proof (intro ballI impI)
    fix f g
    assume f: "f \<in> set files" and g: "g \<in> set files"
      and fg: "name f < name g \<and> name g \<notin> Range (dependency_edges ?fs)"
    from g obtain xs ys where sp: "?fs = xs @ g # ys"
      by (metis set_sort split_list)
    have "sorted (map name ?fs)"
      by (rule sorted_sort_key)
    with sp have "\<forall>y \<in> set ys. name g \<le> name y"
      by (simp add: sorted_append)
    with fg have "f \<notin> set ys"
      by auto
    moreover from fg have "f \<noteq> g"
      by auto
    moreover from f sp have "f \<in> set (xs @ g # ys)"
      by (metis set_sort)
    ultimately have "f \<in> set xs"
      by auto
    with visit_all_unreferenced_last [OF setting sp _ run] fg
    show "precedes f g (result st')"
      by blast
  qed
  from ts a b show ?thesis
    by blast
qed

theorem dependency_order_witness:
  "distinct (map name [a_table, b_table]) \<and> enumerates sorted_list_of_set \<and>
   b_table \<in> resolved_dependencies (sort_key name [a_table, b_table]) a_table \<and>
   (name b_table, name a_table) \<notin> (dependency_edges (sort_key name [a_table, b_table]))\<^sup>+ \<and>
   topological_sort sorted_list_of_set [a_table, b_table] = Inr [b_table, a_table] \<and>
   precedes b_table a_table [b_table, a_table] \<and>
   distinct (map name [f_comments, e_posts, d_users, b_logs, a_orders]) \<and>
   name a_orders < name b_logs \<and>
   name b_logs \<notin> Range (dependency_edges
     (sort_key name [f_comments, e_posts, d_users, b_logs, a_orders])) \<and>
   precedes a_orders b_logs [d_users, a_orders, b_logs, f_comments, e_posts]"
proof -
  have d1: "distinct (map name [a_table, b_table])"
    by code_simp
  have en: "enumerates sorted_list_of_set"
    by (simp add: enumerates_def)
  have dep: "b_table \<in> resolved_dependencies (sort_key name [a_table, b_table]) a_table"
    by code_simp
  have nc: "(name b_table, name a_table) \<notin>
      (dependency_edges (sort_key name [a_table, b_table]))\<^sup>+"
    by code_simp
  have v1: "topological_sort sorted_list_of_set [a_table, b_table] = Inr [b_table, a_table]"
    by code_simp
  from dependency_order [OF d1 en] v1 dep nc
  have p1: "precedes b_table a_table [b_table, a_table]"
    by auto
  have d2: "distinct (map name [f_comments, e_posts, d_users, b_logs, a_orders])"
    by code_simp
  have lt: "name a_orders < name b_logs"
    by code_simp
  have ur: "name b_logs \<notin> Range (dependency_edges
     (sort_key name [f_comments, e_posts, d_users, b_logs, a_orders]))"
    by code_simp
  have v2: "topological_sort sorted_list_of_set [f_comments, e_posts, d_users, b_logs, a_orders] =
     Inr [d_users, a_orders, b_logs, f_comments, e_posts]"
    by code_simp
  from dependency_order [OF d2 en] v2 lt ur
  have p2: "precedes a_orders b_logs [d_users, a_orders, b_logs, f_comments, e_posts]"
    by auto
  from d1 en dep nc v1 p1 d2 lt ur p2 show ?thesis
    by blast
qed

text \<open>
  An input on which both halves of the unrestricted statement fail: \<^verbatim>\<open>e_posts.sql\<close> and \<^verbatim>\<open>f_comments.sql\<close>
  reference each other, and \<^verbatim>\<open>e_posts.sql\<close>, a resolved dependency of \<^verbatim>\<open>f_comments.sql\<close>,
  comes after it; \<^verbatim>\<open>b_logs.sql\<close> and \<^verbatim>\<open>d_users.sql\<close> have no dependency, and
  \<^verbatim>\<open>d_users.sql\<close>, visited as the dependency of \<^verbatim>\<open>a_orders.sql\<close>, comes before
  \<^verbatim>\<open>b_logs.sql\<close>. Every set of references here has one element, so the iteration order
  plays no part.
\<close>

theorem dependency_order_counterexample:
  "topological_sort sorted_list_of_set [f_comments, e_posts, d_users, b_logs, a_orders] =
     Inr [d_users, a_orders, b_logs, f_comments, e_posts] \<and>
   e_posts \<in> resolved_dependencies
     (sort_key name [f_comments, e_posts, d_users, b_logs, a_orders]) f_comments \<and>
   \<not> precedes e_posts f_comments [d_users, a_orders, b_logs, f_comments, e_posts] \<and>
   resolved_dependencies
     (sort_key name [f_comments, e_posts, d_users, b_logs, a_orders]) b_logs = {} \<and>
   resolved_dependencies
     (sort_key name [f_comments, e_posts, d_users, b_logs, a_orders]) d_users = {} \<and>
   name b_logs < name d_users \<and>
   \<not> precedes b_logs d_users [d_users, a_orders, b_logs, f_comments, e_posts]"
  by code_simp

subsection \<open>Exit status\<close>

lemma main_not_connected:
  "\<not> connected env \<Longrightarrow> fst (main env) = Some (SystemExit 1)"
  by (auto simp: connected_def main_def database_connection_def split: option.splits)

lemma main_connected:
  "connected env \<Longrightarrow>
     main env =
       (case with_body env (initial_world env) of
          (Some (DatabaseError msg), w1) \<Rightarrow>
            (Some (SystemExit 1), close_connection (logger (ConnectionError msg) w1))
        | (r, w1) \<Rightarrow> (r, close_connection w1))"
  by (auto simp: connected_def main_def database_connection_def initial_world_def
      split: option.splits)

lemma exit_status_main:
  assumes "connected env"
  shows "exit_status (fst (main env)) =
    (case fst (main_try env (initial_world env)) of
       None \<Rightarrow> 0 | Some (SystemExit n) \<Rightarrow> n | Some _ \<Rightarrow> 1)"
  by (auto simp: main_connected [OF assms] with_body_def exit_status_def
      split: prod.splits option.splits error.splits)

lemma main_try_setup_fails:
  "\<not> setup_succeeds env \<Longrightarrow>
     \<exists>msg. fst (main_try env (initial_world env)) = Some (DatabaseError msg)"
  by (auto simp: setup_succeeds_def setup_calls_def main_try_def initial_world_def
      create_applied_migrations_table_def get_applied_migrations_def execute_def commit_def
      logger_def Let_def split: option.splits)

lemma main_try_setup_succeeds:
  "setup_succeeds env \<Longrightarrow>
     main_try env (initial_world env) =
       (case run_migrations env (set (fetchall env))
               \<lparr>isolation_level = initial_isolation_level env, calls = setup_calls,
                logged = [Starting]\<rparr> of
          (Some e, w3) \<Rightarrow> (Some e, w3)
        | (None, w3) \<Rightarrow> (None, logger Completed w3))"
  by (auto simp: setup_succeeds_def setup_calls_def main_try_def initial_world_def
      create_applied_migrations_table_def get_applied_migrations_def execute_def commit_def
      logger_def Let_def split: option.splits)

lemma run_migrations_processing:
  assumes "migrations_dir_exists env" and "glob_sql env \<noteq> []"
    and "topological_sort (set_order env) (glob_sql env) = Inr sorted_files"
  shows "run_migrations env applied
      \<lparr>isolation_level = initial_isolation_level env, calls = setup_calls, logged = [Starting]\<rparr> =
    process_migration_files (server env) sorted_files applied (world_before_processing env)"
  using assms by (simp add: run_migrations_def world_before_processing_def logger_def Let_def)

lemma process_raises_on_failure:
  assumes "process_migration_files db pre applied w = (None, w1)"
    and "name f \<notin> applied"
    and "fst (apply_migration db f (logger (Applying (name f)) w1)) \<noteq> None"
  shows "fst (process_migration_files db (pre @ f # post) applied w) = Some (SystemExit 1)"
proof -
  obtain r2 w2 where ar: "apply_and_record db f (logger (Applying (name f)) w1) = (r2, w2)"
    by (cases "apply_and_record db f (logger (Applying (name f)) w1)")
  from assms(3) ar have "r2 \<noteq> None"
    by (auto simp: apply_and_record_def split: prod.splits option.splits)
  with apply_and_record_effect [OF ar] obtain msg where r2: "r2 = Some (DatabaseError msg)"
    by auto
  obtain r' w' where ex: "except_block db (name f) (DatabaseError msg) w2 = (r', w')"
    by (cases "except_block db (name f) (DatabaseError msg) w2")
  from except_block_effect [OF ex] assms(1,2) ar r2 ex show ?thesis
    by (simp add: process_append)
qed

lemma exit_status_processing:
  assumes "connected env" and "setup_succeeds env" and "migrations_dir_exists env"
    and "glob_sql env \<noteq> []"
    and "topological_sort (set_order env) (glob_sql env) = Inr sorted_files"
  shows "exit_status (fst (main env)) =
    (if fst (process_migration_files (server env) sorted_files (set (fetchall env))
           (world_before_processing env)) = None
     then 0 else 1)"
proof -
  let ?p = "process_migration_files (server env) sorted_files (set (fetchall env))
      (world_before_processing env)"
  obtain r w' where p: "?p = (r, w')"
    by (cases ?p)
  from process_effect [OF p] have r: "r = None \<or> r = Some (SystemExit 1)"
    by blast
  from assms p have "fst (main_try env (initial_world env)) = r"
    by (auto simp: main_try_setup_succeeds run_migrations_processing split: option.splits)
  with assms(1) r p show ?thesis
    by (auto simp: exit_status_main)
qed

text \<open>
  C6. The exit status of the process. It is 1 when \<^verbatim>\<open>DATABASE_URL\<close> is unset or empty,
  when the connection fails, and when the server refuses one of the setup calls. With a
  connection and a successful setup it is 0 when the migrations directory is missing and
  when the directory holds no SQL file; otherwise \<^verbatim>\<open>topological_sort\<close> returns an order
  and the status is 0 when \<^verbatim>\<open>process_migration_files\<close> returns on it (full success) and
  1 when it raises; it raises, and the status is 1, when \<^verbatim>\<open>apply_migration\<close> raises for
  a file that is reached and not in the applied set.
\<close>

theorem exit_codes:
  "(DATABASE_URL env = None \<or> DATABASE_URL env = Some [] \<longrightarrow>
      exit_status (fst (main env)) = 1) \<and>
   (\<forall>connection_string msg.
      DATABASE_URL env = Some connection_string \<and> connect env connection_string = Some msg \<longrightarrow>
      exit_status (fst (main env)) = 1) \<and>
   (connected env \<and> \<not> setup_succeeds env \<longrightarrow> exit_status (fst (main env)) = 1) \<and>
   (connected env \<and> setup_succeeds env \<and> \<not> migrations_dir_exists env \<longrightarrow>
      exit_status (fst (main env)) = 0) \<and>
   (connected env \<and> setup_succeeds env \<and> migrations_dir_exists env \<and> glob_sql env = [] \<longrightarrow>
      exit_status (fst (main env)) = 0) \<and>
   (connected env \<and> setup_succeeds env \<and> migrations_dir_exists env \<and> glob_sql env \<noteq> [] \<longrightarrow>
      (\<exists>sorted_files.
         topological_sort (set_order env) (glob_sql env) = Inr sorted_files \<and>
         exit_status (fst (main env)) =
           (if fst (process_migration_files (server env) sorted_files (set (fetchall env))
                  (world_before_processing env)) = None
            then 0 else 1)) \<and>
      (\<forall>pre f post w1.
         topological_sort (set_order env) (glob_sql env) = Inr (pre @ f # post) \<and>
         process_migration_files (server env) pre (set (fetchall env))
           (world_before_processing env) = (None, w1) \<and>
         name f \<notin> set (fetchall env) \<and>
         fst (apply_migration (server env) f (logger (Applying (name f)) w1)) \<noteq> None \<longrightarrow>
         exit_status (fst (main env)) = 1))"
proof (intro conjI impI allI)
  assume "DATABASE_URL env = None \<or> DATABASE_URL env = Some []"
  then have "\<not> connected env"
    by (auto simp: connected_def)
  from main_not_connected [OF this] show "exit_status (fst (main env)) = 1"
    by (simp add: exit_status_def)
next
  fix connection_string msg
  assume "DATABASE_URL env = Some connection_string \<and> connect env connection_string = Some msg"
  then have "\<not> connected env"
    by (auto simp: connected_def)
  from main_not_connected [OF this] show "exit_status (fst (main env)) = 1"
    by (simp add: exit_status_def)
next
  assume a: "connected env \<and> \<not> setup_succeeds env"
  then obtain msg where "fst (main_try env (initial_world env)) = Some (DatabaseError msg)"
    using main_try_setup_fails by blast
  with a show "exit_status (fst (main env)) = 1"
    by (simp add: exit_status_main)
next
  assume a: "connected env \<and> setup_succeeds env \<and> \<not> migrations_dir_exists env"
  then have "fst (main_try env (initial_world env)) = None"
    by (simp add: main_try_setup_succeeds run_migrations_def)
  with a show "exit_status (fst (main env)) = 0"
    by (simp add: exit_status_main)
next
  assume a: "connected env \<and> setup_succeeds env \<and> migrations_dir_exists env \<and> glob_sql env = []"
  then have "fst (main_try env (initial_world env)) = None"
    by (simp add: main_try_setup_succeeds run_migrations_def)
  with a show "exit_status (fst (main env)) = 0"
    by (simp add: exit_status_main)
next
  assume a: "connected env \<and> setup_succeeds env \<and> migrations_dir_exists env \<and> glob_sql env \<noteq> []"
  from topological_sort_result [of "set_order env" "glob_sql env"] obtain sorted_files where
    ts: "topological_sort (set_order env) (glob_sql env) = Inr sorted_files"
    by blast
  from a ts exit_status_processing [of env sorted_files]
  show "\<exists>sorted_files.
         topological_sort (set_order env) (glob_sql env) = Inr sorted_files \<and>
         exit_status (fst (main env)) =
           (if fst (process_migration_files (server env) sorted_files (set (fetchall env))
                  (world_before_processing env)) = None
            then 0 else 1)"
    by blast
next
  fix pre f post w1
  assume a: "connected env \<and> setup_succeeds env \<and> migrations_dir_exists env \<and> glob_sql env \<noteq> []"
    and b: "topological_sort (set_order env) (glob_sql env) = Inr (pre @ f # post) \<and>
         process_migration_files (server env) pre (set (fetchall env))
           (world_before_processing env) = (None, w1) \<and>
         name f \<notin> set (fetchall env) \<and>
         fst (apply_migration (server env) f (logger (Applying (name f)) w1)) \<noteq> None"
  from b have "fst (process_migration_files (server env) (pre @ f # post) (set (fetchall env))
      (world_before_processing env)) = Some (SystemExit 1)"
    by (intro process_raises_on_failure [of _ _ _ _ w1]) simp_all
  with a b exit_status_processing [of env "pre @ f # post"]
  show "exit_status (fst (main env)) = 1"
    by simp
qed

theorem exit_codes_witness:
  "exit_status (fst (main (example_environment\<lparr>DATABASE_URL := None\<rparr>))) = 1 \<and>
   exit_status (fst (main (example_environment\<lparr>connect := (\<lambda>url. Some ''refused'')\<rparr>))) = 1 \<and>
   connected example_environment \<and> setup_succeeds example_environment \<and>
   exit_status (fst (main (example_environment\<lparr>migrations_dir_exists := False\<rparr>))) = 0 \<and>
   exit_status (fst (main (example_environment\<lparr>glob_sql := []\<rparr>))) = 0 \<and>
   exit_status (fst (main example_environment)) = 0 \<and>
   fst (apply_migration (refusing ''CREATE TABLE a (x int);'') first_file
     (logger (Applying (name first_file))
        (world_before_processing
           (example_environment\<lparr>server := refusing ''CREATE TABLE a (x int);''\<rparr>)))) \<noteq> None \<and>
   exit_status (fst (main
     (example_environment\<lparr>server := refusing ''CREATE TABLE a (x int);''\<rparr>))) = 1"
proof -
  let ?E = example_environment
  have 1: "exit_status (fst (main (?E\<lparr>DATABASE_URL := None\<rparr>))) = 1"
    using exit_codes [of "?E\<lparr>DATABASE_URL := None\<rparr>"] by simp
  have "DATABASE_URL (?E\<lparr>connect := (\<lambda>url. Some ''refused'')\<rparr>) = Some ''postgresql://app@db/app''"
    by (simp add: example_environment_def)
  then have 2: "exit_status (fst (main (?E\<lparr>connect := (\<lambda>url. Some ''refused'')\<rparr>))) = 1"
    using exit_codes [of "?E\<lparr>connect := (\<lambda>url. Some ''refused'')\<rparr>"] by simp
  have c: "connected ?E" and s: "setup_succeeds ?E"
    by code_simp+
  have c3: "connected (?E\<lparr>migrations_dir_exists := False\<rparr>)"
    and s3: "setup_succeeds (?E\<lparr>migrations_dir_exists := False\<rparr>)"
    by code_simp+
  then have 3: "exit_status (fst (main (?E\<lparr>migrations_dir_exists := False\<rparr>))) = 0"
    using exit_codes [of "?E\<lparr>migrations_dir_exists := False\<rparr>"] by simp
  have c4: "connected (?E\<lparr>glob_sql := []\<rparr>)" and s4: "setup_succeeds (?E\<lparr>glob_sql := []\<rparr>)"
    and d4: "migrations_dir_exists (?E\<lparr>glob_sql := []\<rparr>)"
    by code_simp+
  then have 4: "exit_status (fst (main (?E\<lparr>glob_sql := []\<rparr>))) = 0"
    using exit_codes [of "?E\<lparr>glob_sql := []\<rparr>"] by simp
  have d: "migrations_dir_exists ?E" and g: "glob_sql ?E \<noteq> []"
    by code_simp+
  have ts: "topological_sort (set_order ?E) (glob_sql ?E) = Inr [first_file, second_file]"
    by code_simp
  have p: "fst (process_migration_files (server ?E) [first_file, second_file]
      (set (fetchall ?E)) (world_before_processing ?E)) = None"
    by code_simp
  from exit_codes [of ?E] c s d g ts p have 5: "exit_status (fst (main ?E)) = 0"
    by auto
  let ?F = "?E\<lparr>server := refusing ''CREATE TABLE a (x int);''\<rparr>"
  have cF: "connected ?F" and sF: "setup_succeeds ?F" and dF: "migrations_dir_exists ?F"
    and gF: "glob_sql ?F \<noteq> []"
    by code_simp+
  have tsF: "topological_sort (set_order ?F) (glob_sql ?F) = Inr ([] @ first_file # [second_file])"
    by code_simp
  have pF: "process_migration_files (server ?F) [] (set (fetchall ?F))
      (world_before_processing ?F) = (None, world_before_processing ?F)"
    by simp
  have nF: "name first_file \<notin> set (fetchall ?F)"
    by code_simp
  have aF: "fst (apply_migration (server ?F) first_file
      (logger (Applying (name first_file)) (world_before_processing ?F))) \<noteq> None"
    by code_simp
  from exit_codes [of ?F] cF sF dF gF tsF pF nF aF have 6: "exit_status (fst (main ?F)) = 1"
    by blast
  have aF': "fst (apply_migration (refusing ''CREATE TABLE a (x int);'') first_file
     (logger (Applying (name first_file)) (world_before_processing ?F))) \<noteq> None"
    by code_simp
  from 1 2 c s 3 4 5 aF' 6 show ?thesis
    by blast
qed

subsection \<open>The tracking table\<close>

lemma append_eq_decomp:
  assumes "as @ bs = pre @ x # post" and "x \<notin> set as"
  shows "\<exists>pre2. pre = as @ pre2 \<and> bs = pre2 @ x # post"
proof -
  from assms(1) obtain us where
    "(as = pre @ us \<and> us @ bs = x # post) \<or> (as @ us = pre \<and> bs = us @ x # post)"
    by (auto simp: append_eq_append_conv2)
  then show ?thesis
  proof
    assume a: "as = pre @ us \<and> us @ bs = x # post"
    show ?thesis
    proof (cases us)
      case Nil
      with a show ?thesis
        by auto
    next
      case (Cons u us')
      with a assms(2) show ?thesis
        by auto
    qed
  next
    assume "as @ us = pre \<and> bs = us @ x # post"
    then show ?thesis
      by auto
  qed
qed

lemma migration_call_not_insert: "migration_call f c \<Longrightarrow> c \<noteq> insert_call filename"
  by (cases c) (auto simp: insert_call_def)

lemma apply_and_record_shape:
  assumes "apply_and_record db f w = (r, w')"
  shows "\<exists>ra wa ca cr. apply_migration db f w = (ra, wa) \<and> calls wa = calls w @ ca \<and>
    (\<forall>c \<in> set ca. migration_call f c) \<and> calls w' = calls wa @ cr \<and>
    (ra \<noteq> None \<longrightarrow> cr = [] \<and> r = ra) \<and>
    (ra = None \<longrightarrow> cr \<noteq> [] \<and> prefix cr (record_calls (name f)) \<and>
       (r = None \<longrightarrow> cr = record_calls (name f)))"
proof -
  obtain ra wa where a: "apply_migration db f w = (ra, wa)"
    by (cases "apply_migration db f w")
  from apply_migration_effect [OF a] obtain ca where
    ca: "calls wa = calls w @ ca" "\<forall>c \<in> set ca. migration_call f c"
    by blast
  show ?thesis
  proof (cases ra)
    case (Some e)
    with assms a have "r = ra" "w' = wa"
      by (simp_all add: apply_and_record_def)
    with a ca Some show ?thesis
      by (intro exI [of _ ra] exI [of _ wa] exI [of _ ca] exI [of _ "[]"]) simp
  next
    case None
    obtain rr wr where rm: "record_migration db (name f) wa = (rr, wr)"
      by (cases "record_migration db (name f) wa")
    from record_migration_effect [OF rm] obtain cr where
      cr: "calls wr = calls wa @ cr" "cr \<noteq> []" "prefix cr (record_calls (name f))"
        "rr = None \<longrightarrow> cr = record_calls (name f)"
      by blast
    from assms a None rm have "r = rr" "calls w' = calls wr"
      by (auto simp: apply_and_record_def split: option.splits)
    with a ca cr None show ?thesis
      by (intro exI [of _ ra] exI [of _ wa] exI [of _ ca] exI [of _ cr]) simp
  qed
qed

lemma record_prefix_cases:
  assumes "cr \<noteq> []" and "prefix cr (record_calls filename)"
  shows "cr = [Execute ''BEGIN;'' []] \<or> cr = [Execute ''BEGIN;'' [], insert_call filename] \<or>
    cr = record_calls filename"
  using assms
  by (auto simp: record_calls_def insert_call_def prefix_Cons)

lemma decomp_three:
  assumes "[b, i, c] @ rest = pre2 @ x # post" and "x \<noteq> b" and "x \<noteq> c"
  shows "(pre2 = [b] \<and> x = i \<and> post = c # rest) \<or>
    (\<exists>pre3. pre2 = [b, i, c] @ pre3 \<and> rest = pre3 @ x # post)"
proof (cases pre2)
  case Nil
  with assms show ?thesis
    by simp
next
  case (Cons p1 ps1)
  note c1 = this
  show ?thesis
  proof (cases ps1)
    case Nil
    with c1 assms show ?thesis
      by simp
  next
    case (Cons p2 ps2)
    note c2 = this
    show ?thesis
    proof (cases ps2)
      case Nil
      with c1 c2 assms show ?thesis
        by simp
    next
      case (Cons p3 ps3)
      with c1 c2 assms show ?thesis
        by simp
    qed
  qed
qed

lemma insert_not_control:
  "insert_call filename \<noteq> Execute ''BEGIN;'' []"
  "insert_call filename \<noteq> Execute ''COMMIT;'' []"
  "insert_call filename \<noteq> Execute ''ROLLBACK;'' []"
  by (simp_all add: insert_call_def)

lemma inserts_placed_mono:
  "inserts_placed db files applied history cs \<Longrightarrow> set files \<subseteq> set files' \<Longrightarrow>
     inserts_placed db files' applied history cs"
  unfolding inserts_placed_def by blast

text \<open>The calls of a failed attempt, followed by the rollback.\<close>

lemma failed_attempt_placed:
  assumes shape: "apply_migration db f wA = (ra, wa)" "calls wa = history @ ca"
      "\<forall>c \<in> set ca. migration_call f c"
      "ra \<noteq> None \<longrightarrow> cr = []"
      "ra = None \<longrightarrow> cr \<noteq> [] \<and> prefix cr (record_calls (name f))"
    and f: "name f \<notin> applied"
  shows "inserts_placed db (f # files) applied history (ca @ cr @ [Execute ''ROLLBACK;'' []])"
  unfolding inserts_placed_def
proof (intro allI impI)
  fix pre post filename
  assume eq: "ca @ cr @ [Execute ''ROLLBACK;'' []] = pre @ insert_call filename # post"
  from shape(3) have "insert_call filename \<notin> set ca"
    by (auto dest: migration_call_not_insert)
  from append_eq_decomp [OF eq this] obtain pre2 where
    pre: "pre = ca @ pre2" and rest: "cr @ [Execute ''ROLLBACK;'' []] = pre2 @ insert_call filename # post"
    by blast
  have ra: "ra = None"
  proof (rule ccontr)
    assume "ra \<noteq> None"
    with shape(4) rest have "[Execute ''ROLLBACK;'' []] = pre2 @ insert_call filename # post"
      by simp
    then show False
      by (cases pre2) (auto simp: insert_call_def)
  qed
  with shape(5) have "cr \<noteq> []" "prefix cr (record_calls (name f))"
    by simp_all
  from record_prefix_cases [OF this] rest
  have "pre2 = [Execute ''BEGIN;'' []] \<and> filename = name f \<and>
      (post = [Execute ''ROLLBACK;'' []] \<or>
       post = [Execute ''COMMIT;'' [], Execute ''ROLLBACK;'' []])"
    by (elim disjE) (auto simp: record_calls_def insert_call_def Cons_eq_append_conv)
  with pre shape(1,2) ra f
  show "(\<exists>g \<in> set (f # files). name g = filename \<and> filename \<notin> applied \<and>
           (\<exists>pre' w0 w1. pre = pre' @ [Execute ''BEGIN;'' []] \<and>
              apply_migration db g w0 = (None, w1) \<and> calls w1 = history @ pre')) \<and>
        (\<exists>post'. post = Execute ''COMMIT;'' [] # post' \<or> post = [Execute ''ROLLBACK;'' []])"
    by auto
qed

text \<open>The calls of a successful attempt, followed by calls in which inserts are placed.\<close>

lemma successful_attempt_placed:
  assumes shape: "apply_migration db f wA = (None, wa)" "calls wa = history @ ca"
      "\<forall>c \<in> set ca. migration_call f c"
    and f: "name f \<notin> applied"
    and rest: "inserts_placed db files applied (history @ ca @ record_calls (name f)) cs"
  shows "inserts_placed db (f # files) applied history (ca @ record_calls (name f) @ cs)"
  unfolding inserts_placed_def
proof (intro allI impI)
  fix pre post filename
  assume eq: "ca @ record_calls (name f) @ cs = pre @ insert_call filename # post"
  from shape(3) have "insert_call filename \<notin> set ca"
    by (auto dest: migration_call_not_insert)
  from append_eq_decomp [OF eq this] obtain pre2 where
    pre: "pre = ca @ pre2" and
    r: "record_calls (name f) @ cs = pre2 @ insert_call filename # post"
    by blast
  from r have "[Execute ''BEGIN;'' [], insert_call (name f), Execute ''COMMIT;'' []] @ cs =
      pre2 @ insert_call filename # post"
    by (simp add: record_calls_def insert_call_def)
  from decomp_three [OF this insert_not_control(1,2)]
  consider "pre2 = [Execute ''BEGIN;'' []]" "insert_call filename = insert_call (name f)"
      "post = Execute ''COMMIT;'' [] # cs"
    | pre3 where "pre2 = record_calls (name f) @ pre3" "cs = pre3 @ insert_call filename # post"
    by (auto simp: record_calls_def insert_call_def)
  then show "(\<exists>g \<in> set (f # files). name g = filename \<and> filename \<notin> applied \<and>
           (\<exists>pre' w0 w1. pre = pre' @ [Execute ''BEGIN;'' []] \<and>
              apply_migration db g w0 = (None, w1) \<and> calls w1 = history @ pre')) \<and>
        (\<exists>post'. post = Execute ''COMMIT;'' [] # post' \<or> post = [Execute ''ROLLBACK;'' []])"
  proof cases
    case 1
    from 1(2) have "filename = name f"
      by (simp add: insert_call_def)
    with 1 pre shape(1,2) f show ?thesis
      by auto
  next
    case 2
    from rest 2(2) obtain g pre' w0 w1 post' where
      g: "g \<in> set files" "name g = filename" "filename \<notin> applied"
        "pre3 = pre' @ [Execute ''BEGIN;'' []]" "apply_migration db g w0 = (None, w1)"
        "calls w1 = (history @ ca @ record_calls (name f)) @ pre'"
        "post = Execute ''COMMIT;'' [] # post' \<or> post = [Execute ''ROLLBACK;'' []]"
      unfolding inserts_placed_def by blast
    from g(4) pre 2(1) have "pre = (ca @ record_calls (name f) @ pre') @ [Execute ''BEGIN;'' []]"
      by simp
    with g show ?thesis
      by (intro conjI bexI [of _ g]) auto
  qed
qed

lemma process_inserts_placed:
  "process_migration_files db files applied w = (r, w') \<Longrightarrow>
     inserts_placed db files applied (calls w) (new_calls w w')"
proof (induction files arbitrary: w)
  case Nil
  then show ?case
    by (simp add: inserts_placed_def new_calls_def)
next
  case (Cons f files)
  show ?case
  proof (cases "name f \<in> applied")
    case True
    with Cons.prems have
      "process_migration_files db files applied (logger (Skipping (name f)) w) = (r, w')"
      by simp
    from Cons.IH [OF this] have "inserts_placed db files applied (calls w) (new_calls w w')"
      by (simp add: new_calls_def)
    then show ?thesis
      by (rule inserts_placed_mono) auto
  next
    case False
    let ?wA = "logger (Applying (name f)) w"
    obtain r1 w1 where ar: "apply_and_record db f ?wA = (r1, w1)"
      by (cases "apply_and_record db f ?wA")
    from apply_and_record_shape [OF ar] obtain ra wa ca cr where
      sh: "apply_migration db f ?wA = (ra, wa)" "calls wa = calls w @ ca"
        "\<forall>c \<in> set ca. migration_call f c" "calls w1 = calls wa @ cr"
        "ra \<noteq> None \<longrightarrow> cr = [] \<and> r1 = ra"
        "ra = None \<longrightarrow> cr \<noteq> [] \<and> prefix cr (record_calls (name f)) \<and>
           (r1 = None \<longrightarrow> cr = record_calls (name f))"
      by auto
    from apply_and_record_effect [OF ar] have
      r1: "r1 = None \<or> (\<exists>msg. r1 = Some (DatabaseError msg))"
      by blast
    show ?thesis
    proof (cases r1)
      case None
      with sh(5,6) have ra: "ra = None" and cr: "cr = record_calls (name f)"
        by auto
      from Cons.prems False ar None have p: "process_migration_files db files applied w1 = (r, w')"
        by simp
      from process_effect [OF p] obtain cs where cs: "calls w' = calls w1 @ cs"
        by blast
      from Cons.IH [OF p] cs sh(2,4) cr
      have "inserts_placed db files applied (calls w @ ca @ record_calls (name f)) cs"
        by (simp add: new_calls_def)
      from successful_attempt_placed [OF sh(1) [unfolded ra] sh(2,3) False this]
        cs sh(2,4) cr show ?thesis
        by (simp add: new_calls_def)
    next
      case (Some e)
      with r1 obtain msg where e: "e = DatabaseError msg"
        by auto
      with Cons.prems False ar Some have
        "except_block db (name f) (DatabaseError msg) w1 = (r, w')"
        by simp
      from except_block_effect [OF this] sh(2,4)
      have nc: "new_calls w w' = ca @ cr @ [Execute ''ROLLBACK;'' []]"
        by (simp add: new_calls_def)
      from sh(5,6) have "ra \<noteq> None \<longrightarrow> cr = []"
        "ra = None \<longrightarrow> cr \<noteq> [] \<and> prefix cr (record_calls (name f))"
        by auto
      from failed_attempt_placed [OF sh(1,2,3) this False] nc show ?thesis
        by simp
    qed
  qed
qed

lemma count_list_zero: "x \<notin> set xs \<Longrightarrow> count_list xs x = 0"
  by (induction xs) auto

lemma count_record_prefix:
  assumes "prefix cr (record_calls f_name)"
  shows "count_list cr (insert_call filename) \<le> (if filename = f_name then 1 else 0)"
proof (cases "cr = []")
  case True
  then show ?thesis
    by simp
next
  case False
  from record_prefix_cases [OF False assms] show ?thesis
    by (auto simp: record_calls_def insert_call_def)
qed

lemma process_insert_count:
  "distinct (map name files) \<Longrightarrow> process_migration_files db files applied w = (r, w') \<Longrightarrow>
     count_list (new_calls w w') (insert_call filename)
       \<le> (if filename \<in> name ` set files \<and> filename \<notin> applied then 1 else 0)"
proof (induction files arbitrary: w)
  case Nil
  then show ?case
    by (simp add: new_calls_def)
next
  case (Cons f files)
  from Cons.prems(1) have d: "distinct (map name files)" and nf: "name f \<notin> name ` set files"
    by auto
  show ?case
  proof (cases "name f \<in> applied")
    case True
    with Cons.prems have
      "process_migration_files db files applied (logger (Skipping (name f)) w) = (r, w')"
      by simp
    from Cons.IH [OF d this] show ?thesis
      by (auto simp: new_calls_def split: if_splits)
  next
    case False
    let ?wA = "logger (Applying (name f)) w"
    obtain r1 w1 where ar: "apply_and_record db f ?wA = (r1, w1)"
      by (cases "apply_and_record db f ?wA")
    from apply_and_record_shape [OF ar] obtain ra wa ca cr where
      shape: "apply_migration db f ?wA = (ra, wa)" "calls wa = calls w @ ca"
        "\<forall>c \<in> set ca. migration_call f c" "calls w1 = calls wa @ cr"
        "ra \<noteq> None \<longrightarrow> cr = [] \<and> r1 = ra"
        "ra = None \<longrightarrow> cr \<noteq> [] \<and> prefix cr (record_calls (name f)) \<and>
           (r1 = None \<longrightarrow> cr = record_calls (name f))"
      by auto
    note sh = shape(2,3,4,5) shape(6) [THEN mp, THEN conjunct2, THEN conjunct1]
    from sh(2) have "insert_call filename \<notin> set ca"
      by (auto dest: migration_call_not_insert)
    then have ca0: "count_list ca (insert_call filename) = 0"
      by (rule count_list_zero)
    from shape(5,6) have "prefix cr (record_calls (name f))"
      by (cases ra) auto
    from count_record_prefix [OF this]
    have cr1: "count_list cr (insert_call filename) \<le> (if filename = name f then 1 else 0)" .
    from apply_and_record_effect [OF ar] have
      r1: "r1 = None \<or> (\<exists>msg. r1 = Some (DatabaseError msg))"
      by blast
    show ?thesis
    proof (cases r1)
      case None
      from Cons.prems False ar None have p: "process_migration_files db files applied w1 = (r, w')"
        by simp
      from process_effect [OF p] obtain cs where cs: "calls w' = calls w1 @ cs"
        by blast
      from Cons.IH [OF d p] cs
      have "count_list cs (insert_call filename)
          \<le> (if filename \<in> name ` set files \<and> filename \<notin> applied then 1 else 0)"
        by (simp add: new_calls_def)
      moreover have "new_calls w w' = ca @ cr @ cs"
        using cs sh(1,3) by (simp add: new_calls_def)
      ultimately show ?thesis
        using ca0 cr1 nf False by (auto split: if_splits)
    next
      case (Some e)
      with r1 obtain msg where e: "e = DatabaseError msg"
        by auto
      with Cons.prems False ar Some have
        "except_block db (name f) (DatabaseError msg) w1 = (r, w')"
        by simp
      from except_block_effect [OF this] sh(1,3)
      have "new_calls w w' = ca @ cr @ [Execute ''ROLLBACK;'' []]"
        by (simp add: new_calls_def)
      with ca0 cr1 False show ?thesis
        by (auto simp: insert_call_def split: if_splits)
    qed
  qed
qed

lemma process_call_provenance:
  assumes "process_call files applied (Execute sql params)"
  shows "(sql \<in> runner_statements \<and> (params \<noteq> [] \<longrightarrow> sql = insert_sql)) \<or>
    (params = [] \<and> file_statement files applied sql)"
  using assms
  by (auto simp: process_call_def runner_statements_def file_statement_def)

lemma main_not_connected_calls: "\<not> connected env \<Longrightarrow> calls (snd (main env)) = []"
  by (auto simp: connected_def main_def database_connection_def logger_def split: option.splits)

lemma main_connected_calls:
  "connected env \<Longrightarrow>
     calls (snd (main env)) =
       calls (snd (main_try env (initial_world env))) @ [CloseCursor, CloseConnection]"
  by (auto simp: main_connected with_body_def close_cursor_def close_connection_def
      split: prod.splits option.splits error.splits)

lemma main_try_setup_fails_calls:
  "\<not> setup_succeeds env \<Longrightarrow>
     \<exists>k. calls (snd (main_try env (initial_world env))) = take k setup_calls"
proof -
  assume a: "\<not> setup_succeeds env"
  have "calls (snd (main_try env (initial_world env))) = take 1 setup_calls \<or>
    calls (snd (main_try env (initial_world env))) = take 2 setup_calls \<or>
    calls (snd (main_try env (initial_world env))) = take 3 setup_calls"
    using a
    by (auto simp: setup_succeeds_def setup_calls_def main_try_def initial_world_def
        create_applied_migrations_table_def get_applied_migrations_def execute_def commit_def
        logger_def Let_def split: option.splits)
  then show ?thesis
    by blast
qed

lemma main_calls:
  "calls (snd (main env)) = [] \<or>
   (\<exists>k. calls (snd (main env)) = take k setup_calls @ [CloseCursor, CloseConnection]) \<or>
   (\<exists>sorted_files r w'.
      topological_sort (set_order env) (glob_sql env) = Inr sorted_files \<and>
      process_migration_files (server env) sorted_files (set (fetchall env))
        (world_before_processing env) = (r, w') \<and>
      calls (snd (main env)) =
        setup_calls @ new_calls (world_before_processing env) w' @ [CloseCursor, CloseConnection])"
proof (cases "connected env")
  case False
  then show ?thesis
    by (simp add: main_not_connected_calls)
next
  case True
  note c = main_connected_calls [OF True]
  show ?thesis
  proof (cases "setup_succeeds env")
    case False
    from main_try_setup_fails_calls [OF False] c show ?thesis
      by auto
  next
    case True
    note s = main_try_setup_succeeds [OF True]
    show ?thesis
    proof (cases "migrations_dir_exists env \<and> glob_sql env \<noteq> []")
      case False
      then have "calls (snd (main_try env (initial_world env))) = take 3 setup_calls"
        by (auto simp: s run_migrations_def setup_calls_def Let_def)
      with c have "calls (snd (main env)) = take 3 setup_calls @ [CloseCursor, CloseConnection]"
        by simp
      then show ?thesis
        by blast
    next
      case True
      from topological_sort_result [of "set_order env" "glob_sql env"] obtain sorted_files where
        ts: "topological_sort (set_order env) (glob_sql env) = Inr sorted_files"
        by blast
      let ?p = "process_migration_files (server env) sorted_files (set (fetchall env))
          (world_before_processing env)"
      obtain r w' where p: "?p = (r, w')"
        by (cases ?p)
      from process_effect [OF p] obtain cs where
        "calls w' = calls (world_before_processing env) @ cs"
        by blast
      then have cw: "calls w' = setup_calls @ new_calls (world_before_processing env) w'"
        by (simp add: new_calls_def world_before_processing_def)
      from True ts p have "calls (snd (main_try env (initial_world env))) = calls w'"
        by (auto simp: s run_migrations_processing split: option.splits)
      with c cw ts p show ?thesis
        by auto
    qed
  qed
qed

lemma setup_calls_no_insert: "insert_call filename \<notin> set (take k setup_calls)"
  by (auto simp: setup_calls_def insert_call_def dest!: in_set_takeD)

lemma topological_sort_names:
  assumes "topological_sort order files = Inr sorted_files"
  shows "distinct (map name sorted_files) \<and> set sorted_files \<subseteq> set files"
  using topological_sort_result [of order files] assms by auto

lemma file_statement_mono:
  "file_statement files applied sql \<Longrightarrow> set files \<subseteq> set files' \<Longrightarrow>
     file_statement files' applied sql"
  by (auto simp: file_statement_def)

lemma runner_statements_text:
  "\<forall>sql \<in> runner_statements.
     \<not> sublist ''UPDATE'' (upper sql) \<and> \<not> sublist ''DELETE'' (upper sql)"
  by code_simp

text \<open>
  C9. In every run of \<^verbatim>\<open>main\<close> the insert of a filename is issued at most once, and every
  \<^verbatim>\<open>execute\<close> of the run is either one of the runner's own statements (BEGIN;, COMMIT;,
  ROLLBACK;, the insert, the creation of the table, the select; only the insert takes
  parameters) or, without parameters, a text of a file being applied; none of the runner's
  own statements contains UPDATE or DELETE. In every run of \<^verbatim>\<open>process_migration_files\<close>
  each insert belongs to a file of the list that is not in the applied set, follows a
  BEGIN; issued at the very history where \<^verbatim>\<open>apply_migration\<close> of that file returned, and is
  followed by COMMIT; (or by the final rollback, when the insert raised); with distinct
  filenames each insert occurs at most once.
\<close>

theorem tracking_inserts:
  "(\<forall>filename. count_list (calls (snd (main env))) (insert_call filename) \<le> 1) \<and>
   (\<forall>sql params. Execute sql params \<in> set (calls (snd (main env))) \<longrightarrow>
      (sql \<in> runner_statements \<and> (params \<noteq> [] \<longrightarrow> sql = insert_sql)) \<or>
      (params = [] \<and> file_statement (glob_sql env) (set (fetchall env)) sql)) \<and>
   (\<forall>sql \<in> runner_statements.
      \<not> sublist ''UPDATE'' (upper sql) \<and> \<not> sublist ''DELETE'' (upper sql)) \<and>
   (process_migration_files db files applied w = (r, w') \<longrightarrow>
      calls w' = calls w @ new_calls w w' \<and>
      inserts_placed db files applied (calls w) (new_calls w w') \<and>
      (distinct (map name files) \<longrightarrow>
         (\<forall>filename. count_list (new_calls w w') (insert_call filename) \<le> 1)))"
proof (intro conjI allI impI)
  fix filename
  from main_calls [of env]
  show "count_list (calls (snd (main env))) (insert_call filename) \<le> 1"
  proof (elim disjE exE conjE)
    assume "calls (snd (main env)) = []"
    then show ?thesis
      by simp
  next
    fix k
    assume "calls (snd (main env)) = take k setup_calls @ [CloseCursor, CloseConnection]"
    with setup_calls_no_insert [of filename k] show ?thesis
      by (simp add: count_list_zero insert_call_def)
  next
    fix sorted_files r' w''
    assume ts: "topological_sort (set_order env) (glob_sql env) = Inr sorted_files"
      and p: "process_migration_files (server env) sorted_files (set (fetchall env))
        (world_before_processing env) = (r', w'')"
      and c: "calls (snd (main env)) =
        setup_calls @ new_calls (world_before_processing env) w'' @ [CloseCursor, CloseConnection]"
    from topological_sort_names [OF ts] have "distinct (map name sorted_files)"
      by simp
    from process_insert_count [OF this p, of filename]
    have "count_list (new_calls (world_before_processing env) w'') (insert_call filename) \<le> 1"
      by (auto split: if_splits)
    moreover from setup_calls_no_insert [of filename 3]
    have "count_list setup_calls (insert_call filename) = 0"
      by (intro count_list_zero) (simp add: setup_calls_def)
    ultimately show ?thesis
      using c by (simp add: insert_call_def)
  qed
next
  fix sql params
  assume mem: "Execute sql params \<in> set (calls (snd (main env)))"
  have early: "sql \<in> runner_statements \<and> (params \<noteq> [] \<longrightarrow> sql = insert_sql)"
    if "Execute sql params \<in> set (take k setup_calls)" for k
    using in_set_takeD [OF that] by (auto simp: setup_calls_def runner_statements_def)
  from main_calls [of env] mem
  show "(sql \<in> runner_statements \<and> (params \<noteq> [] \<longrightarrow> sql = insert_sql)) \<or>
      (params = [] \<and> file_statement (glob_sql env) (set (fetchall env)) sql)"
  proof (elim disjE exE conjE)
    assume "calls (snd (main env)) = []"
    with mem show ?thesis
      by simp
  next
    fix k
    assume "calls (snd (main env)) = take k setup_calls @ [CloseCursor, CloseConnection]"
    with mem have "Execute sql params \<in> set (take k setup_calls)"
      by simp
    from early [OF this] show ?thesis
      by simp
  next
    fix sorted_files r' w''
    assume ts: "topological_sort (set_order env) (glob_sql env) = Inr sorted_files"
      and p: "process_migration_files (server env) sorted_files (set (fetchall env))
        (world_before_processing env) = (r', w'')"
      and c: "calls (snd (main env)) =
        setup_calls @ new_calls (world_before_processing env) w'' @ [CloseCursor, CloseConnection]"
    from c mem have "Execute sql params \<in> set (take 3 setup_calls) \<or>
        Execute sql params \<in> set (new_calls (world_before_processing env) w'')"
      by (auto simp: setup_calls_def)
    then show ?thesis
    proof
      assume "Execute sql params \<in> set (take 3 setup_calls)"
      from early [OF this] show ?thesis
        by simp
    next
      assume n: "Execute sql params \<in> set (new_calls (world_before_processing env) w'')"
      from process_effect [OF p] obtain cs where
        cs: "calls w'' = calls (world_before_processing env) @ cs"
          "\<forall>c \<in> set cs. process_call sorted_files (set (fetchall env)) c"
        by blast
      from cs(1) have "new_calls (world_before_processing env) w'' = cs"
        by (rule new_calls_append)
      with n cs(2) have "process_call sorted_files (set (fetchall env)) (Execute sql params)"
        by simp
      from process_call_provenance [OF this] topological_sort_names [OF ts]
      show ?thesis
        by (auto intro: file_statement_mono)
    qed
  qed
next
  show "\<forall>sql \<in> runner_statements.
      \<not> sublist ''UPDATE'' (upper sql) \<and> \<not> sublist ''DELETE'' (upper sql)"
    by (rule runner_statements_text)
next
  assume p: "process_migration_files db files applied w = (r, w')"
  from process_effect [OF p] obtain cs where "calls w' = calls w @ cs"
    by blast
  then show "calls w' = calls w @ new_calls w w'"
    by (simp add: new_calls_def)
  from process_inserts_placed [OF p]
  show "inserts_placed db files applied (calls w) (new_calls w w')" .
  fix filename
  assume "distinct (map name files)"
  from process_insert_count [OF this p, of filename]
  show "count_list (new_calls w w') (insert_call filename) \<le> 1"
    by (auto split: if_splits)
qed

theorem tracking_inserts_witness:
  "process_migration_files accepting [first_file, second_file] {} example_world =
     (None, snd (process_migration_files accepting [first_file, second_file] {} example_world)) \<and>
   distinct (map name [first_file, second_file]) \<and>
   new_calls example_world
     (snd (process_migration_files accepting [first_file, second_file] {} example_world)) =
     [Execute ''BEGIN;'' [], Execute ''CREATE TABLE a (x int);'' [], Execute ''COMMIT;'' [],
      Execute ''BEGIN;'' [], insert_call ''001_init.sql'', Execute ''COMMIT;'' [],
      Execute ''BEGIN;'' [], Execute ''CREATE TABLE b (x int);'' [], Execute ''COMMIT;'' [],
      Execute ''BEGIN;'' [], insert_call ''002_b.sql'', Execute ''COMMIT;'' []] \<and>
   count_list (new_calls example_world
     (snd (process_migration_files accepting [first_file, second_file] {} example_world)))
     (insert_call ''001_init.sql'') \<le> 1 \<and>
   inserts_placed accepting [first_file, second_file] {} (calls example_world)
     (new_calls example_world
        (snd (process_migration_files accepting [first_file, second_file] {} example_world)))"
proof -
  let ?W = "snd (process_migration_files accepting [first_file, second_file] {} example_world)"
  have p: "process_migration_files accepting [first_file, second_file] {} example_world =
      (None, ?W)"
    by code_simp
  have d: "distinct (map name [first_file, second_file])"
    by code_simp
  have n: "new_calls example_world ?W =
     [Execute ''BEGIN;'' [], Execute ''CREATE TABLE a (x int);'' [], Execute ''COMMIT;'' [],
      Execute ''BEGIN;'' [], insert_call ''001_init.sql'', Execute ''COMMIT;'' [],
      Execute ''BEGIN;'' [], Execute ''CREATE TABLE b (x int);'' [], Execute ''COMMIT;'' [],
      Execute ''BEGIN;'' [], insert_call ''002_b.sql'', Execute ''COMMIT;'' []]"
    by code_simp
  note inst = tracking_inserts [of _ accepting "[first_file, second_file]" "{}" example_world
      None ?W]
  from inst p d have c: "count_list (new_calls example_world ?W) (insert_call ''001_init.sql'') \<le> 1"
    by blast
  from inst p have i: "inserts_placed accepting [first_file, second_file] {} (calls example_world)
      (new_calls example_world ?W)"
    by blast
  from p d n c i show ?thesis
    by blast
qed

end
